theory Spec2Isabelle
  imports Complex_Main "HOL-Library.Multiset" "HOL-Library.Sublist"
begin

section \<open>JavaScript values of the gateway\<close>

text \<open>
  The values that flow through the gateway's callbacks are JSON documents: the bodies
  of the backends' responses and the keys read from parent records. A value is a tree;
  \<open>JUndefined\<close> is what a read of an absent property yields. Numbers are the
  finite numbers a JSON document can hold, read as reals (\<open>+0\<close> and \<open>-0\<close> are both
  \<open>0\<close>); a JSON document holds no \<open>NaN\<close>. An object is its list of own properties
  in insertion order; a read takes the first binding of a name.
\<close>

datatype jsval =
    JUndefined
  | JNull
  | JBool bool
  | JNum real
  | JStr string
  | JArr "jsval list"
  | JObj "(string \<times> jsval) list"

text \<open>
  What a \<open>throw\<close> carries. \<open>TypeError\<close> is the runtime's own error (a property
  read on \<open>undefined\<close> or \<open>null\<close>, a call of something that is not a function);
  \<open>Error msg\<close> is \<open>new Error(msg)\<close> of the source; \<open>FetchRejected\<close> is a
  rejection of \<open>fetch\<close> (no response at all) and \<open>InvalidJson\<close> the rejection of
  \<open>response.json()\<close> on a body that is not JSON.
\<close>

datatype js_error =
    TypeError
  | Error string
  | FetchRejected string
  | InvalidJson

text \<open>Sequencing of two steps either of which may throw.\<close>

definition and_then :: "js_error + 'a \<Rightarrow> ('a \<Rightarrow> js_error + 'b) \<Rightarrow> js_error + 'b" where
  "and_then m f = (case m of Inl e \<Rightarrow> Inl e | Inr v \<Rightarrow> f v)"

text \<open>\<open>ToBoolean\<close>: what \<open>if (v)\<close> and \<open>!v\<close> test.\<close>

fun truthy :: "jsval \<Rightarrow> bool" where
  "truthy JUndefined = False"
| "truthy JNull = False"
| "truthy (JBool b) = b"
| "truthy (JNum n) = (n \<noteq> 0)"
| "truthy (JStr s) = (s \<noteq> [])"
| "truthy (JArr xs) = True"
| "truthy (JObj kvs) = True"

definition nullish :: "jsval \<Rightarrow> bool" where
  "nullish v = (v = JUndefined \<or> v = JNull)"

text \<open>
  \<open>v.name\<close> for the names the source reads (\<open>edges\<close>, \<open>nodes\<close>, \<open>node\<close>,
  \<open>stateFipsCode\<close>, \<open>authHeader\<close>), none of which a built-in prototype defines:
  a read on \<open>undefined\<close> or \<open>null\<close> throws, an object yields its own property or
  \<open>undefined\<close>, every other value yields \<open>undefined\<close>.
\<close>

fun get_prop :: "jsval \<Rightarrow> string \<Rightarrow> js_error + jsval" where
  "get_prop JUndefined name = Inl TypeError"
| "get_prop JNull name = Inl TypeError"
| "get_prop (JObj kvs) name =
     (case map_of kvs name of None \<Rightarrow> Inr JUndefined | Some v \<Rightarrow> Inr v)"
| "get_prop v name = Inr JUndefined"

text \<open>\<open>v[0]\<close>: the first element of an array, the first character of a string.\<close>

fun get_first :: "jsval \<Rightarrow> js_error + jsval" where
  "get_first JUndefined = Inl TypeError"
| "get_first JNull = Inl TypeError"
| "get_first (JArr []) = Inr JUndefined"
| "get_first (JArr (x # xs)) = Inr x"
| "get_first (JStr []) = Inr JUndefined"
| "get_first (JStr (c # cs)) = Inr (JStr [c])"
| "get_first (JObj kvs) =
     (case map_of kvs ''0'' of None \<Rightarrow> Inr JUndefined | Some v \<Rightarrow> Inr v)"
| "get_first v = Inr JUndefined"

section \<open>Array methods with a callback that may throw\<close>

text \<open>
  \<open>Array.prototype.find\<close>: the elements are tried from index 0; the first one the
  predicate accepts is returned and no later element is tried; \<open>undefined\<close> when
  none is accepted. A throw of the predicate ends the scan.
\<close>

fun js_find :: "(jsval \<Rightarrow> js_error + bool) \<Rightarrow> jsval list \<Rightarrow> js_error + jsval" where
  "js_find p [] = Inr JUndefined"
| "js_find p (x # xs) =
     (case p x of
        Inl e \<Rightarrow> Inl e
      | Inr True \<Rightarrow> Inr x
      | Inr False \<Rightarrow> js_find p xs)"

text \<open>
  \<open>Array.prototype.map\<close>: the callback runs on each element in order; the first
  throw ends the loop and no array is returned.
\<close>

fun js_map :: "('a \<Rightarrow> js_error + 'b) \<Rightarrow> 'a list \<Rightarrow> js_error + 'b list" where
  "js_map f [] = Inr []"
| "js_map f (x # xs) =
     (case f x of
        Inl e \<Rightarrow> Inl e
      | Inr y \<Rightarrow> (case js_map f xs of Inl e \<Rightarrow> Inl e | Inr ys \<Rightarrow> Inr (y # ys)))"

text \<open>
  \<open>results.find(p)\<close> on whatever \<open>results\<close> is: only an array has the method;
  on \<open>undefined\<close> and \<open>null\<close> the read of \<open>find\<close> throws, on any other JSON value
  the call of the absent method does.
\<close>

definition find_in :: "jsval \<Rightarrow> (jsval \<Rightarrow> js_error + bool) \<Rightarrow> js_error + jsval" where
  "find_in results p = (case results of JArr xs \<Rightarrow> js_find p xs | _ \<Rightarrow> Inl TypeError)"

section \<open>The batch resolver's callbacks\<close>

text \<open>
  The operator \<open>==\<close> of the source is the language's loose equality, whose coercions
  (string to number, object to primitive, identity of references) are no code of the
  gateway. The callbacks take it as the parameter \<open>eq\<close>, which may throw, so that
  what is proved of them holds for whatever \<open>==\<close> computes.
\<close>

type_synonym loose_eq = "jsval \<Rightarrow> jsval \<Rightarrow> js_error + bool"

text \<open>
  The arrow function given to \<open>results.find\<close> in \<open>valuesFromResults\<close> (the
  correlation of one group \<open>element\<close> with \<open>key\<close>).
\<close>

definition correlates :: "loose_eq \<Rightarrow> jsval \<Rightarrow> jsval \<Rightarrow> js_error + bool" where
  "correlates eq key element =
     and_then (get_prop element ''edges'') (\<lambda>edges.
       if truthy edges then
         and_then (get_first edges) (\<lambda>edge.
         and_then (get_prop edge ''node'') (\<lambda>node.
         and_then (get_prop node ''stateFipsCode'') (\<lambda>code.
           if \<not> truthy code then Inl (Error ''Need stateFipsCode in Query for edges'')
           else eq code key)))
       else
         and_then (get_prop element ''nodes'') (\<lambda>nodes.
           if truthy nodes then
             and_then (get_first nodes) (\<lambda>node.
             and_then (get_prop node ''stateFipsCode'') (\<lambda>code.
               if \<not> truthy code then Inl (Error ''Need stateFipsCode in Query for nodes'')
               else eq code key))
           else Inl (Error ''Query needs nodes or edges'')))"

text \<open>\<open>valuesFromResults(results, keys)\<close>.\<close>

definition valuesFromResults :: "loose_eq \<Rightarrow> jsval \<Rightarrow> jsval list \<Rightarrow> js_error + jsval list" where
  "valuesFromResults eq results keys =
     js_map (\<lambda>key. find_in results (correlates eq key)) keys"

text \<open>
  \<open>result?.name?.map(a => ({ name: [a] }))\<close>: \<open>undefined\<close> when \<open>result\<close> or
  \<open>result.name\<close> is \<open>undefined\<close> or \<open>null\<close>; one wrapper object per element when
  \<open>result.name\<close> is an array; a throw when it is anything else (it has no callable
  \<open>map\<close>).
\<close>

definition wrap_each :: "string \<Rightarrow> jsval \<Rightarrow> js_error + jsval" where
  "wrap_each name result =
     (if nullish result then Inr JUndefined
      else and_then (get_prop result name) (\<lambda>field.
        (case field of
           JUndefined \<Rightarrow> Inr JUndefined
         | JNull \<Rightarrow> Inr JUndefined
         | JArr xs \<Rightarrow> Inr (JArr (map (\<lambda>a. JObj [(name, JArr [a])]) xs))
         | _ \<Rightarrow> Inl TypeError)))"

text \<open>
  \<open>{ ...src }\<close> onto the properties \<open>kvs\<close> written so far: the own properties of
  an object are copied in order, a name already present keeps its place and takes the
  new value; \<open>undefined\<close> and \<open>null\<close> copy nothing. The source spreads
  \<open>edges[index]\<close>, which is one of the wrapper objects or \<open>undefined\<close>; the spread
  of an array or a string (its indexed elements) does not occur and is not written out.
\<close>

fun put_prop :: "string \<Rightarrow> 'v \<Rightarrow> (string \<times> 'v) list \<Rightarrow> (string \<times> 'v) list" where
  "put_prop k v [] = [(k, v)]"
| "put_prop k v ((k', v') # kvs) =
     (if k = k' then (k, v) # kvs else (k', v') # put_prop k v kvs)"

fun spread_into :: "(string \<times> jsval) list \<Rightarrow> jsval \<Rightarrow> (string \<times> jsval) list" where
  "spread_into kvs (JObj src) = foldl (\<lambda>acc (k, v). put_prop k v acc) kvs src"
| "spread_into kvs v = kvs"

text \<open>
  \<open>edges[index]\<close>: the element of an array, \<open>undefined\<close> past its end. The source
  indexes \<open>edges\<close> only where it is truthy, and then it is the array that \<open>map\<close>
  made; the read of an index on other values is not written out.
\<close>

fun at_index :: "jsval \<Rightarrow> nat \<Rightarrow> jsval" where
  "at_index (JArr xs) i = (if i < length xs then xs ! i else JUndefined)"
| "at_index v i = JUndefined"

text \<open>
  The \<open>nodes.map((n, index) => ({ nodes: n.nodes, ...edges[index] }))\<close> of
  \<open>resultTransformer\<close>, on the elements of \<open>nodes\<close>.
\<close>

definition combine :: "jsval list \<Rightarrow> jsval \<Rightarrow> js_error + jsval list" where
  "combine nodes edges =
     js_map (\<lambda>(index, n).
       and_then (get_prop n ''nodes'') (\<lambda>ns.
         Inr (JObj (spread_into [(''nodes'', ns)] (at_index edges index)))))
       (enumerate 0 nodes)"

text \<open>
  \<open>resultTransformer(result)\<close> of the query transform. Each of \<open>edges\<close> and
  \<open>nodes\<close> is \<open>undefined\<close> or an array, so \<open>nodes.map\<close> is called on an array
  whenever \<open>nodes && edges\<close> holds.
\<close>

definition resultTransformer :: "jsval \<Rightarrow> js_error + jsval" where
  "resultTransformer result =
     and_then (wrap_each ''edges'' result) (\<lambda>edges.
     and_then (wrap_each ''nodes'' result) (\<lambda>nodes.
       if truthy nodes \<and> truthy edges then
         (case nodes of
            JArr ns \<Rightarrow> and_then (combine ns edges) (\<lambda>combined. Inr (JArr combined))
          | _ \<Rightarrow> Inl TypeError)
       else Inr (if truthy nodes then nodes else edges)))"

section \<open>Notions the properties are stated with\<close>

text \<open>
  The first element of a sequence that satisfies \<open>P\<close>, \<open>undefined\<close> when there is
  none: what a slot of the mapped sequence is specified to hold.
\<close>

definition first_match :: "(jsval \<Rightarrow> bool) \<Rightarrow> jsval list \<Rightarrow> jsval" where
  "first_match P xs = (case List.find P xs of None \<Rightarrow> JUndefined | Some g \<Rightarrow> g)"

text \<open>No group of \<open>xs\<close> makes the correlation with a key of \<open>keys\<close> throw.\<close>

definition scans_cleanly :: "loose_eq \<Rightarrow> jsval list \<Rightarrow> jsval list \<Rightarrow> bool" where
  "scans_cleanly eq keys xs = (\<forall>k\<in>set keys. \<forall>g\<in>set xs. \<not> isl (correlates eq k g))"

text \<open>No key of \<open>keys\<close> is correlated with two different groups of \<open>xs\<close>.\<close>

definition single_match :: "loose_eq \<Rightarrow> jsval list \<Rightarrow> jsval list \<Rightarrow> bool" where
  "single_match eq keys xs =
     (\<forall>k\<in>set keys. \<forall>g\<in>set xs. \<forall>h\<in>set xs.
        correlates eq k g = Inr True \<and> correlates eq k h = Inr True \<longrightarrow> g = h)"

text \<open>
  The operator \<open>===\<close> on JSON values (two objects or arrays parsed from documents
  are different references). On two strings \<open>==\<close> is \<open>===\<close>; \<open>strict\<close> stands for
  \<open>eq\<close> where the properties are evaluated on string keys.
\<close>

fun strict_eq :: "jsval \<Rightarrow> jsval \<Rightarrow> bool" where
  "strict_eq JUndefined JUndefined = True"
| "strict_eq JNull JNull = True"
| "strict_eq (JBool a) (JBool b) = (a = b)"
| "strict_eq (JNum a) (JNum b) = (a = b)"
| "strict_eq (JStr a) (JStr b) = (a = b)"
| "strict_eq a b = False"

definition strict :: loose_eq where
  "strict a b = Inr (strict_eq a b)"

text \<open>
  The records of the worked example: the state record of code \<open>k\<close> as the backend
  returns it, and the group \<open>resultTransformer\<close> makes of it when the query selects
  \<open>edges\<close>.
\<close>

definition state_node :: "string \<Rightarrow> jsval" where
  "state_node k = JObj [(''stateFipsCode'', JStr k), (''stateName'', JStr (''state '' @ k))]"

definition rec_edges :: "string \<Rightarrow> jsval" where
  "rec_edges k = JObj [(''edges'', JArr [JObj [(''node'', state_node k)]])]"

text \<open>
  The shape of a group, read off the JSON document: the own property \<open>name\<close> of an
  object, the first element of an array, whether a group exposes \<open>edges\<close> or
  \<open>nodes\<close> (the property is there and truthy), and the record whose key field the
  correlation reads: the node of the first edge for a group that exposes \<open>edges\<close>,
  the first node otherwise.
\<close>

definition prop_of :: "jsval \<Rightarrow> string \<Rightarrow> jsval option" where
  "prop_of g name = (case g of JObj fs \<Rightarrow> map_of fs name | _ \<Rightarrow> None)"

fun head_of :: "jsval \<Rightarrow> jsval option" where
  "head_of (JArr (x # xs)) = Some x"
| "head_of v = None"

definition exposes :: "jsval \<Rightarrow> string \<Rightarrow> bool" where
  "exposes g name = (case prop_of g name of Some v \<Rightarrow> truthy v | None \<Rightarrow> False)"

definition first_record :: "jsval \<Rightarrow> jsval option" where
  "first_record g =
     (if exposes g ''edges'' then
        Option.bind (Option.bind (prop_of g ''edges'') head_of) (\<lambda>edge. prop_of edge ''node'')
      else Option.bind (prop_of g ''nodes'') head_of)"

text \<open>The group has a record, and the record has no \<open>stateFipsCode\<close>.\<close>

definition lacks_key :: "jsval \<Rightarrow> bool" where
  "lacks_key g =
     (case first_record g of
        Some n \<Rightarrow> get_prop n ''stateFipsCode'' = Inr JUndefined
      | None \<Rightarrow> False)"

text \<open>The error of the source that names what is missing.\<close>

definition missing_key_error :: "jsval \<Rightarrow> js_error" where
  "missing_key_error g =
     (if exposes g ''edges'' then Error ''Need stateFipsCode in Query for edges''
      else Error ''Need stateFipsCode in Query for nodes'')"

text \<open>A group whose query selected the state's name only.\<close>

definition no_key_record :: "string \<Rightarrow> jsval" where
  "no_key_record name =
     JObj [(''edges'', JArr [JObj [(''node'', JObj [(''stateName'', JStr name)])]])]"

text \<open>
  The group the normalization is specified to build at position \<open>i\<close> from the
  response's node sequence \<open>ns\<close> and edge sequence \<open>es\<close>: node \<open>i\<close> under
  \<open>nodes\<close> and, when there is one, edge \<open>i\<close> under \<open>edges\<close>.
\<close>

definition merged :: "jsval list \<Rightarrow> jsval list \<Rightarrow> nat \<Rightarrow> jsval" where
  "merged ns es i =
     JObj ((''nodes'', JArr [ns ! i]) #
           (if i < length es then [(''edges'', JArr [es ! i])] else []))"

text \<open>
  \<open>resultTransformer\<close> followed by \<open>valuesFromResults\<close>: the batch loader hands
  what the transform made of the batched field to \<open>valuesFromResults\<close> as
  \<open>results\<close>.
\<close>

definition batch_values :: "loose_eq \<Rightarrow> jsval \<Rightarrow> jsval list \<Rightarrow> js_error + jsval list" where
  "batch_values eq result keys =
     and_then (resultTransformer result) (\<lambda>results. valuesFromResults eq results keys)"

text \<open>
  Two more groups for the evaluations: a group whose record carries
  \<open>stateFipsCode\<close> with the value \<open>v\<close>, and a connection object that selected
  neither \<open>edges\<close> nor \<open>nodes\<close>.
\<close>

definition falsy_key_record :: "jsval \<Rightarrow> jsval" where
  "falsy_key_record v = JObj [(''edges'', JArr [JObj [(''node'', JObj [(''stateFipsCode'', v)])]])]"

definition count_only :: jsval where
  "count_only = JObj [(''totalCount'', JNum 2)]"

section \<open>The remote executor\<close>

text \<open>
  The \<open>document\<close> an executor receives is a query text or a parsed query, which
  \<open>print\<close> of the graphql package turns into text.
\<close>

datatype 'ast document = Text string | Ast 'ast

text \<open>
  What \<open>fetch\<close> is called with: the address and the \<open>init\<close> object. The body is
  kept as the value that \<open>JSON.stringify\<close> serializes.
\<close>

record request =
  req_url :: string
  req_method :: string
  req_headers :: "(string \<times> jsval) list"
  req_body :: jsval

text \<open>
  What \<open>fetch\<close> resolves with: the transport status and the body, \<open>None\<close> when
  the body is not JSON (then \<open>json()\<close> rejects).
\<close>

record response =
  status :: nat
  body_json :: "jsval option"

definition request_of :: "string \<Rightarrow> string \<Rightarrow> jsval \<Rightarrow> jsval \<Rightarrow> request" where
  "request_of url query variables auth =
     \<lparr>req_url = url, req_method = ''POST'',
      req_headers = [(''Authorization'', auth), (''Content-Type'', JStr ''application/json'')],
      req_body = JObj [(''query'', JStr query), (''variables'', variables)]\<rparr>"

text \<open>
  \<open>makeRemoteExecutor(url)\<close> applied to \<open>{ document, variables, context }\<close>. The
  two imports are parameters: \<open>print\<close> (it may throw) and \<open>fetch\<close>, the network
  and the backend behind it (\<open>Inl\<close> is a rejection: no response). The result is what
  the \<open>async\<close> function settles with, a returned value or a thrown error, and the
  requests it has sent. The \<open>console.log\<close> lines write to the console only and are
  left out.
\<close>

definition makeRemoteExecutor ::
  "('ast \<Rightarrow> js_error + string) \<Rightarrow> (request \<Rightarrow> js_error + response) \<Rightarrow> string \<Rightarrow>
   'ast document \<Rightarrow> jsval \<Rightarrow> jsval \<Rightarrow> (js_error + jsval) \<times> request list" where
  "makeRemoteExecutor print fetch url document variables context =
     (case (case document of Text s \<Rightarrow> Inr s | Ast a \<Rightarrow> print a) of
        Inl e \<Rightarrow> (Inl e, [])
      | Inr query \<Rightarrow>
          (case get_prop context ''authHeader'' of
             Inl e \<Rightarrow> (Inl e, [])
           | Inr auth \<Rightarrow>
               (let req = request_of url query variables auth in
                (case fetch req of
                   Inl e \<Rightarrow> (Inl e, [req])
                 | Inr fetchResult \<Rightarrow>
                     (case body_json fetchResult of
                        None \<Rightarrow> (Inl InvalidJson, [req])
                      | Some result \<Rightarrow> (Inr result, [req]))))))"

text \<open>
  For the evaluations: the gateway's own context, a backend that answers every request
  with status 500 and a JSON body, a network that refuses the connection, and a
  \<open>print\<close> for callers that only send query texts.
\<close>

definition admin_context :: jsval where
  "admin_context = JObj [(''authHeader'', JStr ''Bearer my-app-to-app-token'')]"

definition error_body :: jsval where
  "error_body = JObj [(''errors'', JArr [JObj [(''message'', JStr ''Internal Server Error'')]])]"

definition failing_backend :: "request \<Rightarrow> js_error + response" where
  "failing_backend req = Inr \<lparr>status = 500, body_json = Some error_body\<rparr>"

definition unreachable_backend :: "request \<Rightarrow> js_error + response" where
  "unreachable_backend req = Inl (FetchRejected ''ECONNREFUSED'')"

definition no_print :: "unit \<Rightarrow> js_error + string" where
  "no_print a = Inl TypeError"

definition count_query :: "unit document" where
  "count_query = Text ''{ allFipsCodeStates { totalCount } }''"

section \<open>The callbacks over a heap\<close>

text \<open>
  The same callbacks once more, with objects and arrays held by reference, for the
  property that compares two runs of the mapping: there the objects a run creates are
  new objects, and two runs can only agree up to which new objects they create. A
  value is a primitive or a reference; the heap lists the objects, a reference is an
  index into it.
\<close>

datatype hval =
    HUndefined
  | HNull
  | HBool bool
  | HNum real
  | HStr string
  | HRef nat

datatype hobj =
    HArr "hval list"
  | HObj "(string \<times> hval) list"

type_synonym heap = "hobj list"

text \<open>
  The object at an address, and the allocation of a new object at the end of the
  heap. The source writes to no property of any object: allocation is the only way the
  functions below change the heap.
\<close>

definition cell :: "heap \<Rightarrow> nat \<Rightarrow> hobj option" where
  "cell h a = (if a < length h then Some (h ! a) else None)"

definition alloc :: "heap \<Rightarrow> hobj \<Rightarrow> hval \<times> heap" where
  "alloc h obj = (HRef (length h), h @ [obj])"

text \<open>
  \<open>ToBoolean\<close>, \<open>v.name\<close> and \<open>v[0]\<close> as above; a reference is truthy, and its
  properties are read from the heap.
\<close>

fun h_truthy :: "hval \<Rightarrow> bool" where
  "h_truthy HUndefined = False"
| "h_truthy HNull = False"
| "h_truthy (HBool b) = b"
| "h_truthy (HNum n) = (n \<noteq> 0)"
| "h_truthy (HStr s) = (s \<noteq> [])"
| "h_truthy (HRef a) = True"

definition h_nullish :: "hval \<Rightarrow> bool" where
  "h_nullish v = (v = HUndefined \<or> v = HNull)"

fun h_get_prop :: "heap \<Rightarrow> hval \<Rightarrow> string \<Rightarrow> js_error + hval" where
  "h_get_prop h HUndefined name = Inl TypeError"
| "h_get_prop h HNull name = Inl TypeError"
| "h_get_prop h (HRef a) name =
     (case cell h a of
        Some (HObj kvs) \<Rightarrow> (case map_of kvs name of None \<Rightarrow> Inr HUndefined | Some v \<Rightarrow> Inr v)
      | _ \<Rightarrow> Inr HUndefined)"
| "h_get_prop h v name = Inr HUndefined"

fun h_get_first :: "heap \<Rightarrow> hval \<Rightarrow> js_error + hval" where
  "h_get_first h HUndefined = Inl TypeError"
| "h_get_first h HNull = Inl TypeError"
| "h_get_first h (HStr []) = Inr HUndefined"
| "h_get_first h (HStr (c # cs)) = Inr (HStr [c])"
| "h_get_first h (HRef a) =
     (case cell h a of
        Some (HArr []) \<Rightarrow> Inr HUndefined
      | Some (HArr (x # xs)) \<Rightarrow> Inr x
      | Some (HObj kvs) \<Rightarrow> (case map_of kvs ''0'' of None \<Rightarrow> Inr HUndefined | Some v \<Rightarrow> Inr v)
      | None \<Rightarrow> Inr HUndefined)"
| "h_get_first h v = Inr HUndefined"

text \<open>
  \<open>Array.prototype.find\<close> on the elements of an array, the elements of the array
  behind a value (\<open>None\<close> when the value is no array), and \<open>results.find(p)\<close>.
\<close>

fun h_find :: "(hval \<Rightarrow> js_error + bool) \<Rightarrow> hval list \<Rightarrow> js_error + hval" where
  "h_find p [] = Inr HUndefined"
| "h_find p (x # xs) =
     (case p x of
        Inl e \<Rightarrow> Inl e
      | Inr True \<Rightarrow> Inr x
      | Inr False \<Rightarrow> h_find p xs)"

definition elems :: "heap \<Rightarrow> hval \<Rightarrow> hval list option" where
  "elems h v =
     (case v of
        HRef a \<Rightarrow> (case cell h a of Some (HArr xs) \<Rightarrow> Some xs | _ \<Rightarrow> None)
      | _ \<Rightarrow> None)"

definition h_find_in :: "heap \<Rightarrow> hval \<Rightarrow> (hval \<Rightarrow> js_error + bool) \<Rightarrow> js_error + hval" where
  "h_find_in h results p =
     (case elems h results of Some xs \<Rightarrow> h_find p xs | None \<Rightarrow> Inl TypeError)"

text \<open>
  The operator \<open>==\<close> is a parameter again; it may read the heap, since the coercion
  of an object reads the object.
\<close>

type_synonym h_loose_eq = "heap \<Rightarrow> hval \<Rightarrow> hval \<Rightarrow> js_error + bool"

definition h_correlates :: "h_loose_eq \<Rightarrow> heap \<Rightarrow> hval \<Rightarrow> hval \<Rightarrow> js_error + bool" where
  "h_correlates heq h key element =
     and_then (h_get_prop h element ''edges'') (\<lambda>edges.
       if h_truthy edges then
         and_then (h_get_first h edges) (\<lambda>edge.
         and_then (h_get_prop h edge ''node'') (\<lambda>node.
         and_then (h_get_prop h node ''stateFipsCode'') (\<lambda>code.
           if \<not> h_truthy code then Inl (Error ''Need stateFipsCode in Query for edges'')
           else heq h code key)))
       else
         and_then (h_get_prop h element ''nodes'') (\<lambda>nodes.
           if h_truthy nodes then
             and_then (h_get_first h nodes) (\<lambda>node.
             and_then (h_get_prop h node ''stateFipsCode'') (\<lambda>code.
               if \<not> h_truthy code then Inl (Error ''Need stateFipsCode in Query for nodes'')
               else heq h code key))
           else Inl (Error ''Query needs nodes or edges'')))"

text \<open>
  \<open>valuesFromResults(results, keys)\<close>, with \<open>keys\<close> the elements of the key array:
  the array that \<open>map\<close> returns is a new object.
\<close>

definition h_valuesFromResults ::
  "h_loose_eq \<Rightarrow> heap \<Rightarrow> hval \<Rightarrow> hval list \<Rightarrow> (js_error + hval) \<times> heap" where
  "h_valuesFromResults heq h results keys =
     (case js_map (\<lambda>key. h_find_in h results (h_correlates heq h key)) keys of
        Inl e \<Rightarrow> (Inl e, h)
      | Inr newresult \<Rightarrow> (case alloc h (HArr newresult) of (r, h1) \<Rightarrow> (Inr r, h1)))"

text \<open>
  \<open>result?.name?.map(a => ({ name: [a] }))\<close>: each call of the arrow function
  creates the array \<open>[a]\<close> and the wrapper object, and \<open>map\<close> creates the array of
  the wrappers.
\<close>

fun h_wrap_all :: "string \<Rightarrow> heap \<Rightarrow> hval list \<Rightarrow> hval list \<times> heap" where
  "h_wrap_all name h [] = ([], h)"
| "h_wrap_all name h (a # rest) =
     (case alloc h (HArr [a]) of (arr, h1) \<Rightarrow>
      (case alloc h1 (HObj [(name, arr)]) of (w, h2) \<Rightarrow>
       (case h_wrap_all name h2 rest of (ws, h3) \<Rightarrow> (w # ws, h3))))"

definition h_wrap_each :: "string \<Rightarrow> heap \<Rightarrow> hval \<Rightarrow> (js_error + hval) \<times> heap" where
  "h_wrap_each name h result =
     (if h_nullish result then (Inr HUndefined, h)
      else
        (case h_get_prop h result name of
           Inl e \<Rightarrow> (Inl e, h)
         | Inr field \<Rightarrow>
             (if h_nullish field then (Inr HUndefined, h)
              else
                (case elems h field of
                   None \<Rightarrow> (Inl TypeError, h)
                 | Some xs \<Rightarrow>
                     (case h_wrap_all name h xs of (ws, h1) \<Rightarrow>
                      (case alloc h1 (HArr ws) of (r, h2) \<Rightarrow> (Inr r, h2)))))))"

text \<open>
  The spread of \<open>edges[index]\<close>, the read of \<open>edges[index]\<close>, and the
  \<open>nodes.map((n, index) => ...)\<close> of \<open>resultTransformer\<close>, which creates one object
  per element.
\<close>

definition h_spread_into :: "heap \<Rightarrow> (string \<times> hval) list \<Rightarrow> hval \<Rightarrow> (string \<times> hval) list" where
  "h_spread_into h kvs src =
     (case src of
        HRef a \<Rightarrow>
          (case cell h a of
             Some (HObj sfs) \<Rightarrow> foldl (\<lambda>acc (k, v). put_prop k v acc) kvs sfs
           | _ \<Rightarrow> kvs)
      | _ \<Rightarrow> kvs)"

definition h_at_index :: "heap \<Rightarrow> hval \<Rightarrow> nat \<Rightarrow> hval" where
  "h_at_index h v i =
     (case elems h v of
        Some xs \<Rightarrow> (if i < length xs then xs ! i else HUndefined)
      | None \<Rightarrow> HUndefined)"

fun h_combine :: "heap \<Rightarrow> hval \<Rightarrow> nat \<Rightarrow> hval list \<Rightarrow> (js_error + hval list) \<times> heap" where
  "h_combine h edges index [] = (Inr [], h)"
| "h_combine h edges index (n # rest) =
     (case h_get_prop h n ''nodes'' of
        Inl e \<Rightarrow> (Inl e, h)
      | Inr ns \<Rightarrow>
          (case alloc h (HObj (h_spread_into h [(''nodes'', ns)] (h_at_index h edges index))) of
             (g, h1) \<Rightarrow>
               (case h_combine h1 edges (Suc index) rest of
                  (Inl e, h2) \<Rightarrow> (Inl e, h2)
                | (Inr gs, h2) \<Rightarrow> (Inr (g # gs), h2))))"

text \<open>
  \<open>resultTransformer(result)\<close> and the two callbacks in sequence.
\<close>

definition h_resultTransformer :: "heap \<Rightarrow> hval \<Rightarrow> (js_error + hval) \<times> heap" where
  "h_resultTransformer h result =
     (case h_wrap_each ''edges'' h result of
        (Inl e, h1) \<Rightarrow> (Inl e, h1)
      | (Inr edges, h1) \<Rightarrow>
          (case h_wrap_each ''nodes'' h1 result of
             (Inl e, h2) \<Rightarrow> (Inl e, h2)
           | (Inr nodes, h2) \<Rightarrow>
               (if h_truthy nodes \<and> h_truthy edges then
                  (case elems h2 nodes of
                     None \<Rightarrow> (Inl TypeError, h2)
                   | Some ns \<Rightarrow>
                       (case h_combine h2 edges 0 ns of
                          (Inl e, h3) \<Rightarrow> (Inl e, h3)
                        | (Inr combined, h3) \<Rightarrow>
                            (case alloc h3 (HArr combined) of (r, h4) \<Rightarrow> (Inr r, h4))))
                else (Inr (if h_truthy nodes then nodes else edges), h2))))"

definition h_batch_values ::
  "h_loose_eq \<Rightarrow> heap \<Rightarrow> hval \<Rightarrow> hval list \<Rightarrow> (js_error + hval) \<times> heap" where
  "h_batch_values heq h result keys =
     (case h_resultTransformer h result of
        (Inl e, h1) \<Rightarrow> (Inl e, h1)
      | (Inr results, h1) \<Rightarrow> h_valuesFromResults heq h1 results keys)"

text \<open>
  The operator \<open>===\<close> on values held by reference: primitives are compared by
  value, references by address. It stands for \<open>heq\<close> in the evaluations.
\<close>

definition h_strict :: h_loose_eq where
  "h_strict h a c = Inr (a = c)"

text \<open>
  The renaming of addresses that moves every address from \<open>b\<close> on up by \<open>d\<close>, on
  addresses, values and objects; the values a heap can hold (no reference points
  outside it); and two heaps of which the second holds the objects of the first under
  that renaming.
\<close>

definition shift :: "nat \<Rightarrow> nat \<Rightarrow> nat \<Rightarrow> nat" where
  "shift b d a = (if b \<le> a then a + d else a)"

fun lift :: "nat \<Rightarrow> nat \<Rightarrow> hval \<Rightarrow> hval" where
  "lift b d (HRef a) = HRef (shift b d a)"
| "lift b d v = v"

fun lift_obj :: "nat \<Rightarrow> nat \<Rightarrow> hobj \<Rightarrow> hobj" where
  "lift_obj b d (HArr xs) = HArr (map (lift b d) xs)"
| "lift_obj b d (HObj kvs) = HObj (map (\<lambda>(k, v). (k, lift b d v)) kvs)"

fun valid :: "heap \<Rightarrow> hval \<Rightarrow> bool" where
  "valid h (HRef a) = (a < length h)"
| "valid h v = True"

fun vals_of :: "hobj \<Rightarrow> hval list" where
  "vals_of (HArr xs) = xs"
| "vals_of (HObj kvs) = map snd kvs"

definition closed :: "heap \<Rightarrow> bool" where
  "closed h = (\<forall>obj\<in>set h. \<forall>v\<in>set (vals_of obj). valid h v)"

definition renamed :: "nat \<Rightarrow> nat \<Rightarrow> heap \<Rightarrow> heap \<Rightarrow> bool" where
  "renamed b d H H' =
     (b \<le> length H \<and> length H' = length H + d \<and>
      (\<forall>a<length H. H' ! shift b d a = lift_obj b d (H ! a)))"

text \<open>
  What is assumed of \<open>==\<close>: its outcome on two values of a heap does not depend on the
  addresses at which objects lie, nor on objects the heap does not hold.
\<close>

definition address_blind :: "h_loose_eq \<Rightarrow> bool" where
  "address_blind heq =
     (\<forall>b d H H' a c. renamed b d H H' \<and> closed H \<and> valid H a \<and> valid H c \<longrightarrow>
        heq H' (lift b d a) (lift b d c) = heq H a c)"

text \<open>
  The JSON document a value stands for, read to depth \<open>n\<close>: what a caller can observe
  of a result without comparing references.
\<close>

fun reify :: "nat \<Rightarrow> heap \<Rightarrow> hval \<Rightarrow> jsval" where
  "reify n h HUndefined = JUndefined"
| "reify n h HNull = JNull"
| "reify n h (HBool b) = JBool b"
| "reify n h (HNum x) = JNum x"
| "reify n h (HStr s) = JStr s"
| "reify 0 h (HRef a) = JUndefined"
| "reify (Suc n) h (HRef a) =
     (case cell h a of
        None \<Rightarrow> JUndefined
      | Some (HArr xs) \<Rightarrow> JArr (map (reify n h) xs)
      | Some (HObj kvs) \<Rightarrow> JObj (map (\<lambda>(k, v). (k, reify n h v)) kvs))"

text \<open>
  Two runs, one from the heap \<open>H\<close> and one from \<open>H'\<close>, correspond: the second result
  is the first one renamed, the heaps they end in correspond by the renaming, each run
  only extends its heap, and the first run's heap and result are well formed. There
  is one such relation for each type of result.
\<close>

definition sim ::
  "nat \<Rightarrow> nat \<Rightarrow> heap \<Rightarrow> heap \<Rightarrow> (js_error + hval) \<times> heap \<Rightarrow> (js_error + hval) \<times> heap \<Rightarrow> bool" where
  "sim b d H H' out out' =
     (fst out' = map_sum id (lift b d) (fst out) \<and>
      renamed b d (snd out) (snd out') \<and> closed (snd out) \<and>
      prefix H (snd out) \<and> prefix H' (snd out') \<and>
      (\<forall>v. fst out = Inr v \<longrightarrow> valid (snd out) v))"

definition sim_list ::
  "nat \<Rightarrow> nat \<Rightarrow> heap \<Rightarrow> heap \<Rightarrow> hval list \<times> heap \<Rightarrow> hval list \<times> heap \<Rightarrow> bool" where
  "sim_list b d H H' out out' =
     (fst out' = map (lift b d) (fst out) \<and>
      renamed b d (snd out) (snd out') \<and> closed (snd out) \<and>
      prefix H (snd out) \<and> prefix H' (snd out') \<and>
      (\<forall>v\<in>set (fst out). valid (snd out) v))"

definition sim_elist ::
  "nat \<Rightarrow> nat \<Rightarrow> heap \<Rightarrow> heap \<Rightarrow> (js_error + hval list) \<times> heap \<Rightarrow>
   (js_error + hval list) \<times> heap \<Rightarrow> bool" where
  "sim_elist b d H H' out out' =
     (fst out' = map_sum id (map (lift b d)) (fst out) \<and>
      renamed b d (snd out) (snd out') \<and> closed (snd out) \<and>
      prefix H (snd out) \<and> prefix H' (snd out') \<and>
      (\<forall>vs. fst out = Inr vs \<longrightarrow> (\<forall>v\<in>set vs. valid (snd out) v)))"

text \<open>
  A response for the evaluations: one state record, the node sequence that holds it,
  and the connection object that exposes the sequence as \<open>nodes\<close>.
\<close>

definition one_state :: heap where
  "one_state = [HObj [(''stateFipsCode'', HStr ''06'')], HArr [HRef 0], HObj [(''nodes'', HRef 1)]]"

section \<open>Facts about the array methods\<close>

lemma and_then_Inr: "and_then (Inr v) f = f v"
  by (simp add: and_then_def)

lemma js_map_Inr:
  "js_map f xs = Inr ys \<Longrightarrow> length ys = length xs \<and> (\<forall>i<length xs. f (xs ! i) = Inr (ys ! i))"
proof (induction xs arbitrary: ys)
  case Nil
  then show ?case by simp
next
  case (Cons x xs)
  then obtain y ys' where fx: "f x = Inr y" and rest: "js_map f xs = Inr ys'" and ys: "ys = y # ys'"
    by (auto split: sum.splits)
  from Cons.IH [OF rest] have len: "length ys' = length xs"
    and at: "\<forall>i<length xs. f (xs ! i) = Inr (ys' ! i)" by simp_all
  have "f ((x # xs) ! i) = Inr (ys ! i)" if "i < length (x # xs)" for i
    using that fx at ys by (cases i) simp_all
  then show ?case using len ys by simp
qed

lemma js_map_all_Inr:
  "(\<forall>x\<in>set xs. f x = Inr (g x)) \<Longrightarrow> js_map f xs = Inr (map g xs)"
  by (induction xs) simp_all

lemma js_find_Inr:
  "js_find p xs = Inr v \<Longrightarrow> v = first_match (\<lambda>g. p g = Inr True) xs"
  by (induction xs) (auto simp: first_match_def split: sum.splits bool.splits if_splits)

lemma js_find_total:
  "(\<forall>g\<in>set xs. \<exists>b. p g = Inr b) \<Longrightarrow>
   js_find p xs = Inr (first_match (\<lambda>g. p g = Inr True) xs)"
  by (induction xs) (auto simp: first_match_def split: sum.splits bool.splits if_splits)

lemma first_match_set:
  assumes "set xs' = set xs"
    and "\<forall>g\<in>set xs. \<forall>h\<in>set xs. P g \<and> P h \<longrightarrow> g = h"
  shows "first_match P xs' = first_match P xs"
proof (cases "List.find P xs")
  case None
  then have "\<not> (\<exists>g. g \<in> set xs \<and> P g)" by (simp add: find_None_iff)
  then have "List.find P xs' = None" using assms(1) by (simp add: find_None_iff)
  then show ?thesis using None by (simp add: first_match_def)
next
  case (Some g)
  then have g: "g \<in> set xs" "P g" by (auto simp: find_Some_iff)
  then have "\<exists>h. h \<in> set xs' \<and> P h" using assms(1) by auto
  then obtain h where h: "List.find P xs' = Some h"
    by (cases "List.find P xs'") (auto simp: find_None_iff)
  then have "h \<in> set xs'" "P h" by (auto simp: find_Some_iff)
  then have "h = g" using g assms by auto
  then show ?thesis using h Some by (simp add: first_match_def)
qed

lemma not_isl_Inr: "\<not> isl r \<Longrightarrow> \<exists>b. r = Inr b"
  by (cases r) simp_all

section \<open>Facts about the shape of a group\<close>

lemma prop_of_get: "prop_of g name = Some v \<Longrightarrow> get_prop g name = Inr v"
  by (cases g) (simp_all add: prop_of_def)

lemma head_of_get: "head_of a = Some x \<Longrightarrow> get_first a = Inr x \<and> truthy a"
  by (induction a rule: head_of.induct) simp_all

lemma not_exposes_get:
  "\<not> exposes g name \<Longrightarrow> \<not> nullish g \<Longrightarrow> \<exists>v. get_prop g name = Inr v \<and> \<not> truthy v"
  by (cases g) (auto simp: exposes_def prop_of_def nullish_def split: option.splits)

lemma exposes_get:
  "exposes g name \<Longrightarrow> \<exists>v. prop_of g name = Some v \<and> get_prop g name = Inr v \<and> truthy v"
  by (cases g) (auto simp: exposes_def prop_of_def split: option.splits)

lemma first_record_not_nullish: "first_record g = Some n \<Longrightarrow> \<not> nullish g"
  by (cases g) (auto simp: first_record_def exposes_def prop_of_def nullish_def)

lemma falsy_code_throws:
  assumes rec: "first_record g = Some n"
    and code: "get_prop n ''stateFipsCode'' = Inr v" and falsy: "\<not> truthy v"
  shows "correlates eq k g = Inl (missing_key_error g)"
proof -
  note none = code falsy
  show ?thesis
  proof (cases "exposes g ''edges''")
    case True
    then obtain edges where e: "get_prop g ''edges'' = Inr edges" "truthy edges"
      "prop_of g ''edges'' = Some edges"
      using exposes_get by blast
    with rec True obtain edge where "head_of edges = Some edge" "prop_of edge ''node'' = Some n"
      by (auto simp: first_record_def split: bind_splits)
    then have "get_first edges = Inr edge" "get_prop edge ''node'' = Inr n"
      by (simp_all add: head_of_get prop_of_get)
    with e none True show ?thesis
      by (simp add: correlates_def and_then_def missing_key_error_def)
  next
    case False
    from rec have "\<not> nullish g" by (rule first_record_not_nullish)
    with False obtain edges where e: "get_prop g ''edges'' = Inr edges" "\<not> truthy edges"
      using not_exposes_get by blast
    from rec False obtain nodes where "prop_of g ''nodes'' = Some nodes" "head_of nodes = Some n"
      by (auto simp: first_record_def split: bind_splits)
    then have "get_prop g ''nodes'' = Inr nodes" "truthy nodes" "get_first nodes = Inr n"
      by (simp_all add: head_of_get prop_of_get)
    with e none False show ?thesis
      by (simp add: correlates_def and_then_def missing_key_error_def)
  qed
qed

lemma lacks_key_throws:
  assumes "lacks_key g"
  shows "correlates eq k g = Inl (missing_key_error g)"
proof -
  from assms obtain n where "first_record g = Some n"
    and "get_prop n ''stateFipsCode'' = Inr JUndefined"
    by (auto simp: lacks_key_def split: option.splits)
  then show ?thesis by (rule falsy_code_throws) simp
qed

lemma correlates_keyed:
  assumes rec: "first_record g = Some n"
    and code: "prop_of n ''stateFipsCode'' = Some c" and truthy: "truthy c"
  shows "correlates eq k g = eq c k"
proof -
  from code have read: "get_prop n ''stateFipsCode'' = Inr c" by (rule prop_of_get)
  show ?thesis
  proof (cases "exposes g ''edges''")
    case True
    then obtain edges where e: "get_prop g ''edges'' = Inr edges" "truthy edges"
      "prop_of g ''edges'' = Some edges"
      using exposes_get by blast
    with rec True obtain edge where "head_of edges = Some edge" "prop_of edge ''node'' = Some n"
      by (auto simp: first_record_def split: bind_splits)
    then have "get_first edges = Inr edge" "get_prop edge ''node'' = Inr n"
      by (simp_all add: head_of_get prop_of_get)
    with e read truthy show ?thesis
      by (simp add: correlates_def and_then_def)
  next
    case False
    from rec have "\<not> nullish g" by (rule first_record_not_nullish)
    with False obtain edges where e: "get_prop g ''edges'' = Inr edges" "\<not> truthy edges"
      using not_exposes_get by blast
    from rec False obtain nodes where "prop_of g ''nodes'' = Some nodes" "head_of nodes = Some n"
      by (auto simp: first_record_def split: bind_splits)
    then have "get_prop g ''nodes'' = Inr nodes" "truthy nodes" "get_first nodes = Inr n"
      by (simp_all add: head_of_get prop_of_get)
    with e read truthy show ?thesis
      by (simp add: correlates_def and_then_def)
  qed
qed

section \<open>The mapping of results to keys\<close>

lemma find_in_Inr:
  "find_in (JArr xs) p = Inr v \<Longrightarrow> v = first_match (\<lambda>g. p g = Inr True) xs"
  by (simp add: find_in_def js_find_Inr)

lemma find_in_clean:
  assumes "scans_cleanly eq keys xs" and "k \<in> set keys"
  shows "find_in (JArr xs) (correlates eq k) =
         Inr (first_match (\<lambda>g. correlates eq k g = Inr True) xs)"
proof -
  have "\<forall>g\<in>set xs. \<exists>b. correlates eq k g = Inr b"
    using assms by (simp add: scans_cleanly_def not_isl_Inr)
  then show ?thesis
    by (simp add: find_in_def js_find_total)
qed

lemma valuesFromResults_clean:
  assumes "scans_cleanly eq keys xs"
  shows "valuesFromResults eq (JArr xs) keys =
         Inr (map (\<lambda>k. first_match (\<lambda>g. correlates eq k g = Inr True) xs) keys)"
  unfolding valuesFromResults_def
  by (rule js_map_all_Inr) (simp add: find_in_clean [OF assms])

lemma valuesFromResults_Inr:
  assumes "valuesFromResults eq (JArr xs) keys = Inr out"
  shows "length out = length keys"
    and "i < length keys \<Longrightarrow>
         out ! i = first_match (\<lambda>g. correlates eq (keys ! i) g = Inr True) xs"
proof -
  from assms have m: "js_map (\<lambda>key. find_in (JArr xs) (correlates eq key)) keys = Inr out"
    by (simp add: valuesFromResults_def)
  from js_map_Inr [OF m] show "length out = length keys" by simp
  assume "i < length keys"
  with js_map_Inr [OF m] have "find_in (JArr xs) (correlates eq (keys ! i)) = Inr (out ! i)"
    by simp
  then show "out ! i = first_match (\<lambda>g. correlates eq (keys ! i) g = Inr True) xs"
    by (rule find_in_Inr)
qed

lemma scans_cleanly_set:
  "set xs' = set xs \<Longrightarrow> scans_cleanly eq keys xs' = scans_cleanly eq keys xs"
  by (simp add: scans_cleanly_def)

lemma correlates_rec_edges:
  "j \<noteq> [] \<Longrightarrow> correlates strict (JStr k) (rec_edges j) = Inr (j = k)"
  by (simp add: correlates_def and_then_def rec_edges_def state_node_def strict_def)

text \<open>
  C1. Whenever \<open>valuesFromResults\<close> returns, the sequence it returns is as long as
  the key sequence and slot \<open>i\<close> holds the first group of the response that the
  callback correlates with key \<open>i\<close> (\<open>undefined\<close> when there is none), so equal keys
  hold the same group, each in its own position. It does return when no group makes
  the correlation throw. When moreover no key is correlated with two different groups,
  every reordering of the response is mapped to the same sequence. The correlation of
  a group with a key is the comparison \<open>==\<close> of the key with the \<open>stateFipsCode\<close> of
  the group's record, where that is truthy.
\<close>

theorem valuesFromResults_slots:
  "(\<forall>out. valuesFromResults eq (JArr xs) keys = Inr out \<longrightarrow>
      length out = length keys \<and>
      (\<forall>i<length keys.
         out ! i = first_match (\<lambda>g. correlates eq (keys ! i) g = Inr True) xs) \<and>
      (\<forall>i<length keys. \<forall>j<length keys. keys ! i = keys ! j \<longrightarrow> out ! i = out ! j)) \<and>
   (scans_cleanly eq keys xs \<longrightarrow> (\<exists>out. valuesFromResults eq (JArr xs) keys = Inr out)) \<and>
   (scans_cleanly eq keys xs \<and> single_match eq keys xs \<and> mset xs' = mset xs \<longrightarrow>
      valuesFromResults eq (JArr xs') keys = valuesFromResults eq (JArr xs) keys) \<and>
   (\<forall>g n c k. first_record g = Some n \<and> prop_of n ''stateFipsCode'' = Some c \<and> truthy c \<longrightarrow>
      correlates eq k g = eq c k)"
proof -
  have part1: "length out = length keys \<and>
      (\<forall>i<length keys.
         out ! i = first_match (\<lambda>g. correlates eq (keys ! i) g = Inr True) xs) \<and>
      (\<forall>i<length keys. \<forall>j<length keys. keys ! i = keys ! j \<longrightarrow> out ! i = out ! j)"
    if ret: "valuesFromResults eq (JArr xs) keys = Inr out" for out
    using valuesFromResults_Inr [OF ret] by simp
  have part2: "\<exists>out. valuesFromResults eq (JArr xs) keys = Inr out"
    if "scans_cleanly eq keys xs"
    using that by (simp add: valuesFromResults_clean)
  have part3: "valuesFromResults eq (JArr xs') keys = valuesFromResults eq (JArr xs) keys"
    if h: "scans_cleanly eq keys xs \<and> single_match eq keys xs \<and> mset xs' = mset xs"
  proof -
    from h have sets: "set xs' = set xs" by (metis set_mset_mset)
    have clean': "scans_cleanly eq keys xs'"
      using h scans_cleanly_set [OF sets, of eq keys] by simp
    have "first_match (\<lambda>g. correlates eq k g = Inr True) xs' =
          first_match (\<lambda>g. correlates eq k g = Inr True) xs" if "k \<in> set keys" for k
      using h that by (intro first_match_set [OF sets]) (auto simp: single_match_def)
    then show ?thesis
      using h clean' by (simp add: valuesFromResults_clean)
  qed
  have part4: "correlates eq k g = eq c k"
    if "first_record g = Some n \<and> prop_of n ''stateFipsCode'' = Some c \<and> truthy c" for g n c k
    using that by (auto intro: correlates_keyed)
  from part1 part2 part3 part4 show ?thesis by blast
qed

theorem valuesFromResults_slots_witness:
  "valuesFromResults strict (JArr [rec_edges ''06'', rec_edges ''01'', rec_edges ''02''])
     [JStr ''06'', JStr ''02'', JStr ''01'', JStr ''01'']
     = Inr [rec_edges ''06'', rec_edges ''02'', rec_edges ''01'', rec_edges ''01''] \<and>
   length [rec_edges ''06'', rec_edges ''02'', rec_edges ''01'', rec_edges ''01'']
     = length [JStr ''06'', JStr ''02'', JStr ''01'', JStr ''01''] \<and>
   scans_cleanly strict [JStr ''06'', JStr ''02'', JStr ''01'', JStr ''01'']
     [rec_edges ''06'', rec_edges ''01'', rec_edges ''02''] \<and>
   single_match strict [JStr ''06'', JStr ''02'', JStr ''01'', JStr ''01'']
     [rec_edges ''06'', rec_edges ''01'', rec_edges ''02''] \<and>
   mset [rec_edges ''02'', rec_edges ''06'', rec_edges ''01'']
     = mset [rec_edges ''06'', rec_edges ''01'', rec_edges ''02''] \<and>
   valuesFromResults strict (JArr [rec_edges ''02'', rec_edges ''06'', rec_edges ''01''])
     [JStr ''06'', JStr ''02'', JStr ''01'', JStr ''01'']
     = Inr [rec_edges ''06'', rec_edges ''02'', rec_edges ''01'', rec_edges ''01''] \<and>
   first_record (rec_edges ''06'') = Some (state_node ''06'') \<and>
   prop_of (state_node ''06'') ''stateFipsCode'' = Some (JStr ''06'') \<and>
   correlates strict (JStr ''02'') (rec_edges ''06'') = strict (JStr ''06'') (JStr ''02'')"
proof -
  let ?keys = "[JStr ''06'', JStr ''02'', JStr ''01'', JStr ''01'']"
  let ?xs = "[rec_edges ''06'', rec_edges ''01'', rec_edges ''02'']"
  let ?xs' = "[rec_edges ''02'', rec_edges ''06'', rec_edges ''01'']"
  let ?out = "[rec_edges ''06'', rec_edges ''02'', rec_edges ''01'', rec_edges ''01'']"
  note c = correlates_rec_edges
  have ret: "valuesFromResults strict (JArr ?xs) ?keys = Inr ?out"
    by (simp add: valuesFromResults_def find_in_def c)
  have clean: "scans_cleanly strict ?keys ?xs"
    by (simp add: scans_cleanly_def c)
  have single: "single_match strict ?keys ?xs"
    by (simp add: single_match_def c)
  have perm: "mset ?xs' = mset ?xs"
    by (simp add: add_mset_commute)
  note slots = valuesFromResults_slots [of strict ?xs ?keys ?xs']
  from slots ret have len: "length ?out = length ?keys" by blast
  from slots clean single perm have reordered: "valuesFromResults strict (JArr ?xs') ?keys
      = valuesFromResults strict (JArr ?xs) ?keys" by blast
  have rec: "first_record (rec_edges ''06'') = Some (state_node ''06'')"
    by (simp add: first_record_def exposes_def prop_of_def rec_edges_def)
  have code: "prop_of (state_node ''06'') ''stateFipsCode'' = Some (JStr ''06'')"
    by (simp add: prop_of_def state_node_def)
  have "truthy (JStr ''06'')" by simp
  with slots rec code
  have "correlates strict (JStr ''02'') (rec_edges ''06'') = strict (JStr ''06'') (JStr ''02'')"
    by blast
  with reordered ret len clean single perm rec code show ?thesis by simp
qed

section \<open>Keys without a record\<close>

lemma first_match_none: "\<forall>g\<in>set xs. \<not> P g \<Longrightarrow> first_match P xs = JUndefined"
  by (simp add: first_match_def find_None_iff [THEN iffD2])

lemma first_match_some: "\<exists>g\<in>set xs. P g \<Longrightarrow> first_match P xs \<in> set xs \<and> P (first_match P xs)"
proof -
  assume "\<exists>g\<in>set xs. P g"
  then obtain h where h: "List.find P xs = Some h"
    by (cases "List.find P xs") (auto simp: find_None_iff)
  then have "h \<in> set xs" "P h" by (auto simp: find_Some_iff)
  with h show ?thesis by (simp add: first_match_def)
qed

text \<open>
  C2. Whenever the mapping returns, the slot of a key that no group of the response
  is correlated with holds \<open>undefined\<close>; the slot of a key that has such a group
  holds one of the response's groups correlated with that very key; and every slot
  holds what the mapping of its key alone would return, whatever the other keys are and
  whether or not they have records. The mapping returns when no group makes the
  correlation throw.
\<close>

theorem absent_key_slot_undefined:
  "(\<forall>out. valuesFromResults eq (JArr xs) keys = Inr out \<longrightarrow>
      (\<forall>i<length keys.
         ((\<forall>g\<in>set xs. correlates eq (keys ! i) g \<noteq> Inr True) \<longrightarrow> out ! i = JUndefined) \<and>
         ((\<exists>g\<in>set xs. correlates eq (keys ! i) g = Inr True) \<longrightarrow>
            out ! i \<in> set xs \<and> correlates eq (keys ! i) (out ! i) = Inr True) \<and>
         valuesFromResults eq (JArr xs) [keys ! i] = Inr [out ! i])) \<and>
   (scans_cleanly eq keys xs \<longrightarrow> (\<exists>out. valuesFromResults eq (JArr xs) keys = Inr out))"
proof -
  have part1: "((\<forall>g\<in>set xs. correlates eq (keys ! i) g \<noteq> Inr True) \<longrightarrow> out ! i = JUndefined) \<and>
         ((\<exists>g\<in>set xs. correlates eq (keys ! i) g = Inr True) \<longrightarrow>
            out ! i \<in> set xs \<and> correlates eq (keys ! i) (out ! i) = Inr True) \<and>
         valuesFromResults eq (JArr xs) [keys ! i] = Inr [out ! i]"
    if ret: "valuesFromResults eq (JArr xs) keys = Inr out" and i: "i < length keys" for out i
  proof -
    let ?P = "\<lambda>g. correlates eq (keys ! i) g = Inr True"
    have slot: "out ! i = first_match ?P xs"
      using valuesFromResults_Inr(2) [OF ret i] .
    from ret have "js_map (\<lambda>key. find_in (JArr xs) (correlates eq key)) keys = Inr out"
      by (simp add: valuesFromResults_def)
    from js_map_Inr [OF this] i
    have "find_in (JArr xs) (correlates eq (keys ! i)) = Inr (out ! i)" by simp
    then have alone: "valuesFromResults eq (JArr xs) [keys ! i] = Inr [out ! i]"
      by (simp add: valuesFromResults_def)
    show ?thesis
      using slot alone first_match_none [of xs ?P] first_match_some [of xs ?P] by auto
  qed
  have part2: "\<exists>out. valuesFromResults eq (JArr xs) keys = Inr out"
    if "scans_cleanly eq keys xs"
    using that by (simp add: valuesFromResults_clean)
  from part1 part2 show ?thesis by blast
qed

theorem absent_key_slot_undefined_witness:
  "valuesFromResults strict (JArr [rec_edges ''01'', rec_edges ''06''])
     [JStr ''06'', JStr ''02'', JStr ''01'']
     = Inr [rec_edges ''06'', JUndefined, rec_edges ''01''] \<and>
   scans_cleanly strict [JStr ''06'', JStr ''02'', JStr ''01''] [rec_edges ''01'', rec_edges ''06''] \<and>
   correlates strict (JStr ''02'') (rec_edges ''01'') \<noteq> Inr True \<and>
   correlates strict (JStr ''02'') (rec_edges ''06'') \<noteq> Inr True \<and>
   valuesFromResults strict (JArr [rec_edges ''01'', rec_edges ''06'']) [JStr ''02'']
     = Inr [JUndefined] \<and>
   valuesFromResults strict (JArr [rec_edges ''01'', rec_edges ''06'']) [JStr ''01'']
     = Inr [rec_edges ''01'']"
proof -
  let ?keys = "[JStr ''06'', JStr ''02'', JStr ''01'']"
  let ?xs = "[rec_edges ''01'', rec_edges ''06'']"
  let ?out = "[rec_edges ''06'', JUndefined, rec_edges ''01'']"
  note c = correlates_rec_edges
  have ret: "valuesFromResults strict (JArr ?xs) ?keys = Inr ?out"
    by (simp add: valuesFromResults_def find_in_def c)
  have clean: "scans_cleanly strict ?keys ?xs"
    by (simp add: scans_cleanly_def c)
  have absent: "correlates strict (JStr ''02'') (rec_edges ''01'') \<noteq> Inr True"
      "correlates strict (JStr ''02'') (rec_edges ''06'') \<noteq> Inr True"
    by (simp_all add: c)
  note gap = absent_key_slot_undefined [of strict ?xs ?keys]
  have i1: "1 < length ?keys" and i2: "2 < length ?keys" by simp_all
  from gap ret i1 have "valuesFromResults strict (JArr ?xs) [?keys ! 1] = Inr [?out ! 1]"
    by blast
  moreover from gap ret i2 have "valuesFromResults strict (JArr ?xs) [?keys ! 2] = Inr [?out ! 2]"
    by blast
  ultimately show ?thesis using ret clean absent by simp
qed

section \<open>Records without the key field\<close>

lemma js_find_reaches:
  "j < length xs \<Longrightarrow> p (xs ! j) = Inl e \<Longrightarrow> \<forall>i<j. p (xs ! i) = Inr False \<Longrightarrow>
   js_find p xs = Inl e"
proof (induction xs arbitrary: j)
  case Nil
  then show ?case by simp
next
  case (Cons x xs)
  show ?case
  proof (cases j)
    case 0
    with Cons.prems show ?thesis by simp
  next
    case (Suc j')
    with Cons.prems have "p x = Inr False" by auto
    moreover have "js_find p xs = Inl e"
    proof (rule Cons.IH [of j'])
      show "j' < length xs" using Cons.prems Suc by simp
      show "p (xs ! j') = Inl e" using Cons.prems Suc by simp
      show "\<forall>i<j'. p (xs ! i) = Inr False"
      proof (intro allI impI)
        fix i assume "i < j'"
        then have "Suc i < j" using Suc by simp
        with Cons.prems(3) have "p ((x # xs) ! Suc i) = Inr False" by blast
        then show "p (xs ! i) = Inr False" by simp
      qed
    qed
    ultimately show ?thesis by simp
  qed
qed

lemma js_map_throws:
  "n < length ks \<Longrightarrow> f (ks ! n) = Inl e \<Longrightarrow> \<exists>e'. js_map f ks = Inl e'"
proof (induction ks arbitrary: n)
  case Nil
  then show ?case by simp
next
  case (Cons k ks)
  show ?case
  proof (cases n)
    case 0
    with Cons.prems show ?thesis by simp
  next
    case (Suc n')
    with Cons.prems Cons.IH [of n'] obtain e' where "js_map f ks = Inl e'" by auto
    then show ?thesis by (cases "f k") simp_all
  qed
qed

lemma js_map_first_throw:
  "n < length ks \<Longrightarrow> f (ks ! n) = Inl e \<Longrightarrow> \<forall>m<n. \<not> isl (f (ks ! m)) \<Longrightarrow>
   js_map f ks = Inl e"
proof (induction ks arbitrary: n)
  case Nil
  then show ?case by simp
next
  case (Cons k ks)
  show ?case
  proof (cases n)
    case 0
    with Cons.prems show ?thesis by simp
  next
    case (Suc n')
    with Cons.prems have "\<not> isl (f k)" by auto
    then obtain y where y: "f k = Inr y" by (cases "f k") simp_all
    have "js_map f ks = Inl e"
    proof (rule Cons.IH [of n'])
      show "n' < length ks" using Cons.prems Suc by simp
      show "f (ks ! n') = Inl e" using Cons.prems Suc by simp
      show "\<forall>m<n'. \<not> isl (f (ks ! m))"
      proof (intro allI impI)
        fix m assume "m < n'"
        then have "Suc m < n" using Suc by simp
        with Cons.prems(3) have "\<not> isl (f ((k # ks) ! Suc m))" by blast
        then show "\<not> isl (f (ks ! m))" by simp
      qed
    qed
    with y show ?thesis by simp
  qed
qed

text \<open>
  C4. Let the scan for key \<open>n\<close> reach group \<open>j\<close> (no earlier group is correlated
  with that key) and let the record of group \<open>j\<close> lack the key field. Then
  \<open>valuesFromResults\<close> throws: it returns no sequence at all, so no slot can hold a
  misaligned value. When the searches of the keys before \<open>n\<close> did not throw, the
  error thrown is the one that names the missing \<open>stateFipsCode\<close>.
\<close>

theorem missing_key_field_throws:
  assumes "n < length keys" and "j < length xs" and "lacks_key (xs ! j)"
    and "\<forall>i<j. correlates eq (keys ! n) (xs ! i) = Inr False"
  shows "(\<exists>e. valuesFromResults eq (JArr xs) keys = Inl e) \<and>
         ((\<forall>m<n. \<not> isl (find_in (JArr xs) (correlates eq (keys ! m)))) \<longrightarrow>
            valuesFromResults eq (JArr xs) keys = Inl (missing_key_error (xs ! j)))"
proof -
  have "correlates eq (keys ! n) (xs ! j) = Inl (missing_key_error (xs ! j))"
    using assms(3) by (rule lacks_key_throws)
  with assms(2,4) have "js_find (correlates eq (keys ! n)) xs = Inl (missing_key_error (xs ! j))"
    by (intro js_find_reaches)
  then have f: "find_in (JArr xs) (correlates eq (keys ! n)) = Inl (missing_key_error (xs ! j))"
    by (simp add: find_in_def)
  show ?thesis
    unfolding valuesFromResults_def
    using js_map_throws [where f = "\<lambda>key. find_in (JArr xs) (correlates eq key)", OF assms(1) f]
      js_map_first_throw [where f = "\<lambda>key. find_in (JArr xs) (correlates eq key)", OF assms(1) f]
    by blast
qed


theorem missing_key_field_throws_witness:
  "(1::nat) < length [JStr ''06'', JStr ''02''] \<and>
   (1::nat) < length [rec_edges ''06'', no_key_record ''Alaska''] \<and>
   lacks_key ([rec_edges ''06'', no_key_record ''Alaska''] ! 1) \<and>
   correlates strict (JStr ''02'') (rec_edges ''06'') = Inr False \<and>
   \<not> isl (find_in (JArr [rec_edges ''06'', no_key_record ''Alaska''])
            (correlates strict (JStr ''06''))) \<and>
   valuesFromResults strict (JArr [rec_edges ''06'', no_key_record ''Alaska''])
     [JStr ''06'', JStr ''02''] = Inl (Error ''Need stateFipsCode in Query for edges'')"
proof -
  let ?keys = "[JStr ''06'', JStr ''02'']"
  let ?xs = "[rec_edges ''06'', no_key_record ''Alaska'']"
  have n: "(1::nat) < length ?keys" and j: "(1::nat) < length ?xs" by simp_all
  have lk: "lacks_key (?xs ! 1)"
    by (simp add: lacks_key_def first_record_def exposes_def prop_of_def no_key_record_def)
  have c: "correlates strict (JStr ''02'') (rec_edges ''06'') = Inr False"
    by (simp add: correlates_rec_edges)
  then have reach: "\<forall>i<1. correlates strict (?keys ! 1) (?xs ! i) = Inr False" by simp
  have first: "\<not> isl (find_in (JArr ?xs) (correlates strict (JStr ''06'')))"
    by (simp add: find_in_def correlates_rec_edges)
  then have before: "\<forall>m<1. \<not> isl (find_in (JArr ?xs) (correlates strict (?keys ! m)))" by simp
  have msg: "missing_key_error (?xs ! 1) = Error ''Need stateFipsCode in Query for edges''"
    by (simp add: missing_key_error_def exposes_def prop_of_def no_key_record_def)
  from missing_key_field_throws [OF n j lk reach] before msg
  have "valuesFromResults strict (JArr ?xs) ?keys
        = Inl (Error ''Need stateFipsCode in Query for edges'')" by simp
  with n j lk c first show ?thesis by blast
qed

section \<open>The normalization of the response\<close>

lemma wrap_each_array:
  "map_of props name = Some (JArr xs) \<Longrightarrow>
   wrap_each name (JObj props) = Inr (JArr (map (\<lambda>a. JObj [(name, JArr [a])]) xs))"
  by (simp add: wrap_each_def nullish_def and_then_def)

lemma combine_wrappers:
  "combine (map (\<lambda>a. JObj [(''nodes'', JArr [a])]) ns)
     (JArr (map (\<lambda>a. JObj [(''edges'', JArr [a])]) es))
   = Inr (map (merged ns es) [0..<length ns])"
proof -
  let ?ws = "map (\<lambda>a. JObj [(''nodes'', JArr [a])]) ns"
  let ?wes = "map (\<lambda>a. JObj [(''edges'', JArr [a])]) es"
  let ?F = "\<lambda>(index, n).
       and_then (get_prop n ''nodes'') (\<lambda>ns.
         Inr (JObj (spread_into [(''nodes'', ns)] (at_index (JArr ?wes) index))))"
  let ?G = "\<lambda>p. merged ns es (fst p)"
  have "?F p = Inr (?G p)" if "p \<in> set (enumerate 0 ?ws)" for p
  proof -
    obtain i w where p: "p = (i, w)" by (cases p)
    with that have i: "i < length ns" and w: "w = JObj [(''nodes'', JArr [ns ! i])]"
      by (auto simp: in_set_enumerate_eq)
    show ?thesis
      by (simp add: p w and_then_def merged_def)
  qed
  then have "js_map ?F (enumerate 0 ?ws) = Inr (map ?G (enumerate 0 ?ws))"
    by (intro js_map_all_Inr) blast
  moreover have "map ?G (enumerate 0 ?ws) = map (merged ns es) [0..<length ns]"
  proof -
    have "map ?G (enumerate 0 ?ws) = map (merged ns es) (map fst (enumerate 0 ?ws))"
      by (simp only: map_map o_def)
    then show ?thesis by simp
  qed
  ultimately show ?thesis by (simp add: combine_def)
qed

text \<open>
  C3. For a response object whose \<open>edges\<close> and \<open>nodes\<close> are arrays of the same length
  \<open>L\<close>, \<open>resultTransformer\<close> returns an array of length \<open>L\<close> whose element \<open>i\<close> is
  one object holding node \<open>i\<close> under \<open>nodes\<close> and edge \<open>i\<close> under \<open>edges\<close>: the two
  are paired by position, no key is read.
\<close>

theorem resultTransformer_combines:
  assumes "map_of props ''edges'' = Some (JArr es)"
    and "map_of props ''nodes'' = Some (JArr ns)"
    and "length es = length ns"
  shows "\<exists>out. resultTransformer (JObj props) = Inr (JArr out) \<and> length out = length ns \<and>
           (\<forall>i<length ns.
              out ! i = JObj [(''nodes'', JArr [ns ! i]), (''edges'', JArr [es ! i])])"
proof -
  have "resultTransformer (JObj props) = Inr (JArr (map (merged ns es) [0..<length ns]))"
    using assms(1,2)
    by (simp add: resultTransformer_def wrap_each_array and_then_def combine_wrappers)
  moreover have "map (merged ns es) [0..<length ns] ! i
                 = JObj [(''nodes'', JArr [ns ! i]), (''edges'', JArr [es ! i])]"
    if "i < length ns" for i
    using that assms(3) by (simp add: merged_def)
  ultimately show ?thesis by simp
qed

theorem resultTransformer_combines_witness:
  "map_of [(''edges'', JArr [JObj [(''node'', state_node ''06'')], JObj [(''node'', state_node ''01'')]]),
           (''nodes'', JArr [state_node ''06'', state_node ''01''])] ''edges''
     = Some (JArr [JObj [(''node'', state_node ''06'')], JObj [(''node'', state_node ''01'')]]) \<and>
   map_of [(''edges'', JArr [JObj [(''node'', state_node ''06'')], JObj [(''node'', state_node ''01'')]]),
           (''nodes'', JArr [state_node ''06'', state_node ''01''])] ''nodes''
     = Some (JArr [state_node ''06'', state_node ''01'']) \<and>
   length [JObj [(''node'', state_node ''06'')], JObj [(''node'', state_node ''01'')]]
     = length [state_node ''06'', state_node ''01''] \<and>
   resultTransformer
     (JObj [(''edges'', JArr [JObj [(''node'', state_node ''06'')], JObj [(''node'', state_node ''01'')]]),
            (''nodes'', JArr [state_node ''06'', state_node ''01''])])
     = Inr (JArr
        [JObj [(''nodes'', JArr [state_node ''06'']),
               (''edges'', JArr [JObj [(''node'', state_node ''06'')]])],
         JObj [(''nodes'', JArr [state_node ''01'']),
               (''edges'', JArr [JObj [(''node'', state_node ''01'')]])]])"
proof -
  let ?es = "[JObj [(''node'', state_node ''06'')], JObj [(''node'', state_node ''01'')]]"
  let ?ns = "[state_node ''06'', state_node ''01'']"
  let ?props = "[(''edges'', JArr ?es), (''nodes'', JArr ?ns)]"
  have e: "map_of ?props ''edges'' = Some (JArr ?es)" by simp
  have n: "map_of ?props ''nodes'' = Some (JArr ?ns)" by simp
  have l: "length ?es = length ?ns" by simp
  from resultTransformer_combines [OF e n l] obtain out
    where out: "resultTransformer (JObj ?props) = Inr (JArr out)" "length out = 2"
      and at: "\<forall>i<2. out ! i = JObj [(''nodes'', JArr [?ns ! i]), (''edges'', JArr [?es ! i])]"
    by auto
  from at have "out ! 0 = JObj [(''nodes'', JArr [?ns ! 0]), (''edges'', JArr [?es ! 0])]"
    and "out ! 1 = JObj [(''nodes'', JArr [?ns ! 1]), (''edges'', JArr [?es ! 1])]"
    by simp_all
  with out(2) have "out = [JObj [(''nodes'', JArr [?ns ! 0]), (''edges'', JArr [?es ! 0])],
                          JObj [(''nodes'', JArr [?ns ! 1]), (''edges'', JArr [?es ! 1])]]"
    by (cases out; cases "tl out"; cases "tl (tl out)") auto
  with out(1) e n l show ?thesis by simp
qed

section \<open>Key fields with a falsy value\<close>

lemma valuesFromResults_first_throws:
  "correlates eq k g = Inl e \<Longrightarrow> valuesFromResults eq (JArr (g # rest)) (k # ks) = Inl e"
  by (simp add: valuesFromResults_def find_in_def)

text \<open>
  C10. A group whose record does carry \<open>stateFipsCode\<close>, but with a falsy value (the
  empty string and the number 0 are two), makes the correlation throw the error of a
  missing key field: the source tests the value of the field, not its presence. With
  such a group first in the response, \<open>valuesFromResults\<close> throws that error for
  every non-empty key sequence.
\<close>

theorem falsy_key_value_throws:
  assumes "first_record g = Some n" and "prop_of n ''stateFipsCode'' = Some v"
    and "\<not> truthy v"
  shows "correlates eq k g = Inl (missing_key_error g) \<and>
         valuesFromResults eq (JArr (g # rest)) (k # ks) = Inl (missing_key_error g)"
proof -
  from assms(2) have "get_prop n ''stateFipsCode'' = Inr v" by (rule prop_of_get)
  with assms(1) have "correlates eq k g = Inl (missing_key_error g)"
    using assms(3) by (rule falsy_code_throws)
  then show ?thesis by (simp add: valuesFromResults_first_throws)
qed

theorem falsy_key_value_throws_witness:
  "first_record (falsy_key_record (JStr [])) = Some (JObj [(''stateFipsCode'', JStr [])]) \<and>
   prop_of (JObj [(''stateFipsCode'', JStr [])]) ''stateFipsCode'' = Some (JStr []) \<and>
   \<not> truthy (JStr []) \<and>
   valuesFromResults strict (JArr [falsy_key_record (JStr []), rec_edges ''06'']) [JStr ''06'']
     = Inl (Error ''Need stateFipsCode in Query for edges'') \<and>
   first_record (falsy_key_record (JNum 0)) = Some (JObj [(''stateFipsCode'', JNum 0)]) \<and>
   prop_of (JObj [(''stateFipsCode'', JNum 0)]) ''stateFipsCode'' = Some (JNum 0) \<and>
   \<not> truthy (JNum 0) \<and>
   valuesFromResults strict (JArr [falsy_key_record (JNum 0), rec_edges ''06'']) [JStr ''06'']
     = Inl (Error ''Need stateFipsCode in Query for edges'')"
proof -
  have r: "\<And>v. first_record (falsy_key_record v) = Some (JObj [(''stateFipsCode'', v)])"
    by (simp add: first_record_def exposes_def prop_of_def falsy_key_record_def)
  have p: "\<And>v. prop_of (JObj [(''stateFipsCode'', v)]) ''stateFipsCode'' = Some v"
    by (simp add: prop_of_def)
  have m: "\<And>v. missing_key_error (falsy_key_record v) = Error ''Need stateFipsCode in Query for edges''"
    by (simp add: missing_key_error_def exposes_def prop_of_def falsy_key_record_def)
  have t: "\<not> truthy (JStr [])" "\<not> truthy (JNum 0)" by simp_all
  from falsy_key_value_throws [OF r p t(1), of strict "JStr ''06''" "[rec_edges ''06'']" "[]"]
    falsy_key_value_throws [OF r p t(2), of strict "JStr ''06''" "[rec_edges ''06'']" "[]"]
  show ?thesis using r p t by (simp add: m)
qed

section \<open>Responses and groups without edges and nodes\<close>

lemma shapeless_throws:
  assumes "\<not> exposes g ''edges''" and "\<not> exposes g ''nodes''"
  shows "correlates eq k g =
         Inl (if nullish g then TypeError else Error ''Query needs nodes or edges'')"
proof (cases "nullish g")
  case True
  then show ?thesis by (auto simp: nullish_def correlates_def and_then_def)
next
  case False
  with assms obtain e n where "get_prop g ''edges'' = Inr e" "\<not> truthy e"
    "get_prop g ''nodes'' = Inr n" "\<not> truthy n"
    using not_exposes_get by blast
  with False show ?thesis by (simp add: correlates_def and_then_def)
qed

lemma wrap_each_not_exposed:
  "\<not> exposes result name \<Longrightarrow>
   wrap_each name result = Inr JUndefined \<or> wrap_each name result = Inl TypeError"
  by (cases result)
    (auto simp: wrap_each_def exposes_def prop_of_def nullish_def and_then_def
      split: option.splits jsval.splits)

lemma no_results_throws:
  "keys \<noteq> [] \<Longrightarrow> valuesFromResults eq JUndefined keys = Inl TypeError"
  by (cases keys) (simp_all add: valuesFromResults_def find_in_def)

lemma shapeless_response_throws:
  assumes "\<not> exposes result ''edges''" and "\<not> exposes result ''nodes''" and "keys \<noteq> []"
  shows "batch_values eq result keys = Inl TypeError"
  using wrap_each_not_exposed [OF assms(1)] wrap_each_not_exposed [OF assms(2)] assms(3)
  by (auto simp: batch_values_def resultTransformer_def and_then_def no_results_throws)

lemma wrap_each_Inr:
  "wrap_each name result = Inr v \<Longrightarrow>
   v = JUndefined \<or> (\<exists>xs. v = JArr (map (\<lambda>a. JObj [(name, JArr [a])]) xs))"
  by (auto simp: wrap_each_def and_then_def split: if_splits sum.splits jsval.splits)

lemma exposes_wrapper: "exposes (JObj [(name, JArr [a])]) name"
  by (simp add: exposes_def prop_of_def)

lemma exposes_merged: "exposes (merged ns es i) ''nodes''"
  by (simp add: exposes_def prop_of_def merged_def)

lemma groups_always_shaped:
  assumes "resultTransformer result = Inr (JArr gs)" and "g \<in> set gs"
  shows "exposes g ''edges'' \<or> exposes g ''nodes''"
proof -
  from assms(1) obtain edges nodes where e: "wrap_each ''edges'' result = Inr edges"
    and n: "wrap_each ''nodes'' result = Inr nodes"
    and body: "(if truthy nodes \<and> truthy edges then
         (case nodes of
            JArr ns \<Rightarrow> and_then (combine ns edges) (\<lambda>combined. Inr (JArr combined))
          | _ \<Rightarrow> Inl TypeError)
       else Inr (if truthy nodes then nodes else edges)) = Inr (JArr gs)"
    by (auto simp: resultTransformer_def and_then_def split: sum.splits)
  from wrap_each_Inr [OF e] wrap_each_Inr [OF n]
  consider (none) "nodes = JUndefined" "edges = JUndefined"
    | (only_nodes) ns where "nodes = JArr (map (\<lambda>a. JObj [(''nodes'', JArr [a])]) ns)" "edges = JUndefined"
    | (only_edges) es where "nodes = JUndefined" "edges = JArr (map (\<lambda>a. JObj [(''edges'', JArr [a])]) es)"
    | (both) ns es where "nodes = JArr (map (\<lambda>a. JObj [(''nodes'', JArr [a])]) ns)"
        "edges = JArr (map (\<lambda>a. JObj [(''edges'', JArr [a])]) es)"
    by blast
  then show ?thesis
  proof cases
    case none
    with body show ?thesis by simp
  next
    case only_nodes
    with body have "gs = map (\<lambda>a. JObj [(''nodes'', JArr [a])]) ns" by simp
    with assms(2) show ?thesis by (auto simp: exposes_wrapper)
  next
    case only_edges
    with body have "gs = map (\<lambda>a. JObj [(''edges'', JArr [a])]) es" by simp
    with assms(2) show ?thesis by (auto simp: exposes_wrapper)
  next
    case both
    with body have "gs = map (merged ns es) [0..<length ns]"
      by (simp add: combine_wrappers and_then_def)
    with assms(2) show ?thesis by (auto simp: exposes_merged)
  qed
qed

text \<open>
  C5. A response that exposes neither \<open>edges\<close> nor \<open>nodes\<close> makes the resolution
  (\<open>resultTransformer\<close>, then \<open>valuesFromResults\<close>) of every non-empty key sequence
  throw; no sequence is returned. Every group that \<open>resultTransformer\<close> returns
  exposes \<open>edges\<close> or \<open>nodes\<close>, so the resolution never meets a group that exposes
  neither. Where \<open>valuesFromResults\<close> is given such a group all the same and the
  scan for some key reaches it (no earlier group is correlated with that key), it
  throws; when the searches of the earlier keys did not throw, the error is a
  \<open>TypeError\<close> for a group that is \<open>null\<close> or \<open>undefined\<close> and the source's
  \<open>Query needs nodes or edges\<close> for any other.
\<close>

theorem batch_values_needs_shape:
  "(\<not> exposes result ''edges'' \<and> \<not> exposes result ''nodes'' \<and> keys \<noteq> [] \<longrightarrow>
      batch_values eq result keys = Inl TypeError) \<and>
   (\<forall>gs. resultTransformer result = Inr (JArr gs) \<longrightarrow>
      (\<forall>g\<in>set gs. exposes g ''edges'' \<or> exposes g ''nodes'')) \<and>
   (n < length keys \<and> j < length xs \<and>
    \<not> exposes (xs ! j) ''edges'' \<and> \<not> exposes (xs ! j) ''nodes'' \<and>
    (\<forall>i<j. correlates eq (keys ! n) (xs ! i) = Inr False) \<longrightarrow>
      (\<exists>e. valuesFromResults eq (JArr xs) keys = Inl e) \<and>
      ((\<forall>m<n. \<not> isl (find_in (JArr xs) (correlates eq (keys ! m)))) \<longrightarrow>
         valuesFromResults eq (JArr xs) keys =
           Inl (if nullish (xs ! j) then TypeError else Error ''Query needs nodes or edges'')))"
proof -
  have part2: "\<forall>g\<in>set gs. exposes g ''edges'' \<or> exposes g ''nodes''"
    if "resultTransformer result = Inr (JArr gs)" for gs
    using groups_always_shaped [OF that] by blast
  have part3: "(\<exists>e. valuesFromResults eq (JArr xs) keys = Inl e) \<and>
      ((\<forall>m<n. \<not> isl (find_in (JArr xs) (correlates eq (keys ! m)))) \<longrightarrow>
         valuesFromResults eq (JArr xs) keys =
           Inl (if nullish (xs ! j) then TypeError else Error ''Query needs nodes or edges''))"
    if n: "n < length keys" and j: "j < length xs"
      and s: "\<not> exposes (xs ! j) ''edges''" "\<not> exposes (xs ! j) ''nodes''"
      and reach: "\<forall>i<j. correlates eq (keys ! n) (xs ! i) = Inr False"
  proof -
    let ?e = "if nullish (xs ! j) then TypeError else Error ''Query needs nodes or edges''"
    have "correlates eq (keys ! n) (xs ! j) = Inl ?e"
      using s by (rule shapeless_throws)
    with j reach have "js_find (correlates eq (keys ! n)) xs = Inl ?e"
      by (intro js_find_reaches)
    then have f: "find_in (JArr xs) (correlates eq (keys ! n)) = Inl ?e"
      by (simp add: find_in_def)
    show ?thesis
      unfolding valuesFromResults_def
      using js_map_throws [where f = "\<lambda>key. find_in (JArr xs) (correlates eq key)", OF n f]
        js_map_first_throw [where f = "\<lambda>key. find_in (JArr xs) (correlates eq key)", OF n f]
      by blast
  qed
  show ?thesis
    using shapeless_response_throws [of result keys eq] part2 part3 by blast
qed

theorem batch_values_needs_shape_witness:
  "\<not> exposes count_only ''edges'' \<and> \<not> exposes count_only ''nodes'' \<and>
   batch_values strict count_only [JStr ''06'', JStr ''02''] = Inl TypeError \<and>
   resultTransformer (JObj [(''nodes'', JArr [state_node ''06''])])
     = Inr (JArr [JObj [(''nodes'', JArr [state_node ''06''])]]) \<and>
   (exposes (JObj [(''nodes'', JArr [state_node ''06''])]) ''edges'' \<or>
    exposes (JObj [(''nodes'', JArr [state_node ''06''])]) ''nodes'') \<and>
   correlates strict (JStr ''02'') (rec_edges ''06'') = Inr False \<and>
   \<not> isl (find_in (JArr [rec_edges ''06'', count_only]) (correlates strict (JStr ''06''))) \<and>
   valuesFromResults strict (JArr [rec_edges ''06'', count_only]) [JStr ''06'', JStr ''02'']
     = Inl (Error ''Query needs nodes or edges'') \<and>
   valuesFromResults strict (JArr [rec_edges ''06'', JNull]) [JStr ''06'', JStr ''02'']
     = Inl TypeError"
proof -
  let ?keys = "[JStr ''06'', JStr ''02'']"
  let ?xs = "[rec_edges ''06'', count_only]"
  let ?ys = "[rec_edges ''06'', JNull]"
  let ?resp = "JObj [(''nodes'', JArr [state_node ''06''])]"
  let ?g = "JObj [(''nodes'', JArr [state_node ''06''])]"
  have s: "\<not> exposes count_only ''edges''" "\<not> exposes count_only ''nodes''"
    by (simp_all add: exposes_def prop_of_def count_only_def)
  have sn: "\<not> exposes JNull ''edges''" "\<not> exposes JNull ''nodes''"
    by (simp_all add: exposes_def prop_of_def)
  have nn: "\<not> nullish count_only" by (simp add: nullish_def count_only_def)
  have nl: "nullish JNull" by (simp add: nullish_def)
  have c: "correlates strict (JStr ''02'') (rec_edges ''06'') = Inr False"
    by (simp add: correlates_rec_edges)
  have first: "\<not> isl (find_in (JArr ?xs) (correlates strict (JStr ''06'')))"
    by (simp add: find_in_def correlates_rec_edges)
  have first': "\<not> isl (find_in (JArr ?ys) (correlates strict (JStr ''06'')))"
    by (simp add: find_in_def correlates_rec_edges)
  have tr: "resultTransformer ?resp = Inr (JArr [?g])"
    by (simp add: resultTransformer_def wrap_each_def nullish_def and_then_def)
  note t = batch_values_needs_shape [where result = count_only and keys = ?keys and eq = strict
      and n = 1 and j = 1 and xs = ?xs]
  note u = batch_values_needs_shape [where result = ?resp and keys = ?keys and eq = strict
      and n = 1 and j = 1 and xs = ?ys]
  from t s have a: "batch_values strict count_only ?keys = Inl TypeError" by simp
  from u tr have shaped: "exposes ?g ''edges'' \<or> exposes ?g ''nodes''" by simp
  have reach: "\<forall>i<1. correlates strict (?keys ! 1) (?xs ! i) = Inr False" using c by simp
  have reach': "\<forall>i<1. correlates strict (?keys ! 1) (?ys ! i) = Inr False" using c by simp
  have before: "\<forall>m<1. \<not> isl (find_in (JArr ?xs) (correlates strict (?keys ! m)))"
    using first by simp
  have before': "\<forall>m<1. \<not> isl (find_in (JArr ?ys) (correlates strict (?keys ! m)))"
    using first' by simp
  from t s nn reach before
  have b: "valuesFromResults strict (JArr ?xs) ?keys = Inl (Error ''Query needs nodes or edges'')"
    by simp
  from u sn nl reach' before'
  have b': "valuesFromResults strict (JArr ?ys) ?keys = Inl TypeError"
    by simp
  from s a tr shaped c first b b' show ?thesis by blast
qed

section \<open>The remote executor's request and outcome\<close>

lemma count_query_text:
  "(case count_query of Text s \<Rightarrow> Inr s | Ast a \<Rightarrow> no_print a)
   = Inr ''{ allFipsCodeStates { totalCount } }''"
  by (simp add: count_query_def)

lemma admin_credential:
  "get_prop admin_context ''authHeader'' = Inr (JStr ''Bearer my-app-to-app-token'')"
  by (simp add: admin_context_def)

text \<open>
  C8. When the query text is obtained and the context can be read, the executor sends
  exactly one request, to the executor's address, and the \<open>Authorization\<close> header of
  that request is \<open>context.authHeader\<close>.
\<close>

theorem authorization_header_attached:
  assumes "(case document of Text s \<Rightarrow> Inr s | Ast a \<Rightarrow> print a) = Inr query"
    and "get_prop context ''authHeader'' = Inr credential"
  shows "\<exists>req. snd (makeRemoteExecutor print fetch url document variables context) = [req] \<and>
           req_url req = url \<and>
           map_of (req_headers req) ''Authorization'' = Some credential"
proof -
  have "snd (makeRemoteExecutor print fetch url document variables context)
        = [request_of url query variables credential]"
    using assms by (simp add: makeRemoteExecutor_def Let_def split: sum.splits option.splits)
  then show ?thesis by (simp add: request_of_def)
qed

theorem authorization_header_attached_witness:
  "get_prop admin_context ''authHeader'' = Inr (JStr ''Bearer my-app-to-app-token'') \<and>
   snd (makeRemoteExecutor no_print failing_backend ''https://vaccination/graphql''
          count_query JUndefined admin_context)
     = [request_of ''https://vaccination/graphql'' ''{ allFipsCodeStates { totalCount } }''
          JUndefined (JStr ''Bearer my-app-to-app-token'')] \<and>
   map_of (req_headers (request_of ''https://vaccination/graphql''
          ''{ allFipsCodeStates { totalCount } }'' JUndefined (JStr ''Bearer my-app-to-app-token'')))
       ''Authorization'' = Some (JStr ''Bearer my-app-to-app-token'')"
proof -
  let ?req = "request_of ''https://vaccination/graphql'' ''{ allFipsCodeStates { totalCount } }''
          JUndefined (JStr ''Bearer my-app-to-app-token'')"
  note q = count_query_text and c = admin_credential
  from authorization_header_attached [OF q c, where fetch = failing_backend
      and url = "''https://vaccination/graphql''" and variables = JUndefined]
  obtain req where sent: "snd (makeRemoteExecutor no_print failing_backend
          ''https://vaccination/graphql'' count_query JUndefined admin_context) = [req]"
    and header: "map_of (req_headers req) ''Authorization'' = Some (JStr ''Bearer my-app-to-app-token'')"
    by blast
  have run: "snd (makeRemoteExecutor no_print failing_backend ''https://vaccination/graphql''
          count_query JUndefined admin_context) = [?req]"
    by (simp add: makeRemoteExecutor_def failing_backend_def c count_query_def)
  with sent have "req = ?req" by simp
  with header have "map_of (req_headers ?req) ''Authorization''
      = Some (JStr ''Bearer my-app-to-app-token'')" by simp
  with c run show ?thesis by blast
qed

text \<open>
  C6, as the code has it. When \<open>fetch\<close> rejects (a network failure), the executor
  throws the error of \<open>fetch\<close> as it is. When \<open>fetch\<close> resolves, the transport status
  is not looked at: the executor returns the body when it is JSON and throws when it is
  not.
\<close>

theorem executor_outcome:
  assumes "(case document of Text s \<Rightarrow> Inr s | Ast a \<Rightarrow> print a) = Inr query"
    and "get_prop context ''authHeader'' = Inr credential"
  shows "(\<forall>e. fetch (request_of url query variables credential) = Inl e \<longrightarrow>
            fst (makeRemoteExecutor print fetch url document variables context) = Inl e) \<and>
         (\<forall>fetchResult. fetch (request_of url query variables credential) = Inr fetchResult \<longrightarrow>
            fst (makeRemoteExecutor print fetch url document variables context)
              = (case body_json fetchResult of None \<Rightarrow> Inl InvalidJson | Some result \<Rightarrow> Inr result))"
  using assms by (simp add: makeRemoteExecutor_def Let_def split: sum.splits option.splits)

theorem executor_outcome_witness:
  "unreachable_backend (request_of ''https://vaccination/graphql''
      ''{ allFipsCodeStates { totalCount } }'' JUndefined (JStr ''Bearer my-app-to-app-token''))
     = Inl (FetchRejected ''ECONNREFUSED'') \<and>
   fst (makeRemoteExecutor no_print unreachable_backend ''https://vaccination/graphql''
          count_query JUndefined admin_context) = Inl (FetchRejected ''ECONNREFUSED'') \<and>
   failing_backend (request_of ''https://vaccination/graphql''
      ''{ allFipsCodeStates { totalCount } }'' JUndefined (JStr ''Bearer my-app-to-app-token''))
     = Inr \<lparr>status = 500, body_json = Some error_body\<rparr> \<and>
   fst (makeRemoteExecutor no_print failing_backend ''https://vaccination/graphql''
          count_query JUndefined admin_context) = Inr error_body"
proof -
  note q = count_query_text and c = admin_credential
  have u: "unreachable_backend (request_of ''https://vaccination/graphql''
      ''{ allFipsCodeStates { totalCount } }'' JUndefined (JStr ''Bearer my-app-to-app-token''))
     = Inl (FetchRejected ''ECONNREFUSED'')"
    by (simp add: unreachable_backend_def)
  have f: "failing_backend (request_of ''https://vaccination/graphql''
      ''{ allFipsCodeStates { totalCount } }'' JUndefined (JStr ''Bearer my-app-to-app-token''))
     = Inr \<lparr>status = 500, body_json = Some error_body\<rparr>"
    by (simp add: failing_backend_def)
  from executor_outcome [OF q c, where fetch = unreachable_backend
      and url = "''https://vaccination/graphql''" and variables = JUndefined] u
  have a: "fst (makeRemoteExecutor no_print unreachable_backend ''https://vaccination/graphql''
          count_query JUndefined admin_context) = Inl (FetchRejected ''ECONNREFUSED'')"
    by blast
  from executor_outcome [OF q c, where fetch = failing_backend
      and url = "''https://vaccination/graphql''" and variables = JUndefined] f
  have b: "fst (makeRemoteExecutor no_print failing_backend ''https://vaccination/graphql''
          count_query JUndefined admin_context) = Inr error_body"
    by simp
  from u a f b show ?thesis by blast
qed

text \<open>
  C6 as stated fails: a backend that answers with status 500 and a JSON body gets its
  body returned as an ordinary result.
\<close>

theorem non_success_status_counterexample:
  "failing_backend (request_of ''https://vaccination/graphql''
      ''{ allFipsCodeStates { totalCount } }'' JUndefined (JStr ''Bearer my-app-to-app-token''))
     = Inr \<lparr>status = 500, body_json = Some error_body\<rparr> \<and>
   makeRemoteExecutor no_print failing_backend ''https://vaccination/graphql''
          count_query JUndefined admin_context
     = (Inr error_body,
        [request_of ''https://vaccination/graphql'' ''{ allFipsCodeStates { totalCount } }''
           JUndefined (JStr ''Bearer my-app-to-app-token'')])"
  by (simp add: makeRemoteExecutor_def failing_backend_def admin_context_def count_query_def)

section \<open>Two runs of the mapping\<close>

lemma valid_prefix: "prefix H Hn \<Longrightarrow> valid H v \<Longrightarrow> valid Hn v"
  by (cases v) (auto dest: prefix_length_le)

lemma lift_truthy: "h_truthy (lift b d v) = h_truthy v"
  by (cases v) simp_all

lemma lift_nullish: "h_nullish (lift b d v) = h_nullish v"
  by (cases v) (simp_all add: h_nullish_def)

lemma lift_below: "valid h v \<Longrightarrow> length h \<le> b \<Longrightarrow> lift b d v = v"
  by (cases v) (simp_all add: shift_def)

lemma renamed_cell:
  "renamed b d H H' \<Longrightarrow> a < length H \<Longrightarrow>
   cell H' (shift b d a) = Some (lift_obj b d (H ! a)) \<and> cell H a = Some (H ! a)"
  by (auto simp: renamed_def cell_def shift_def)

lemma closed_nth: "closed H \<Longrightarrow> a < length H \<Longrightarrow> v \<in> set (vals_of (H ! a)) \<Longrightarrow> valid H v"
  by (auto simp: closed_def)

lemma map_of_lift:
  "map_of (map (\<lambda>(k, v). (k, lift b d v)) kvs) name = map_option (lift b d) (map_of kvs name)"
  by (induction kvs) auto

lemma get_prop_sim:
  assumes "renamed b d H H'" and "valid H v"
  shows "h_get_prop H' (lift b d v) name = map_sum id (lift b d) (h_get_prop H v name)"
proof (cases v)
  case (HRef a)
  with assms have a: "a < length H" by simp
  from renamed_cell [OF assms(1) a] show ?thesis
    by (cases "H ! a") (simp_all add: HRef map_of_lift split: option.splits)
qed simp_all

lemma get_prop_valid:
  assumes "closed H" and "valid H v" and "h_get_prop H v name = Inr w"
  shows "valid H w"
proof (cases v)
  case (HRef a)
  with assms have a: "a < length H" by simp
  show ?thesis
  proof (cases "H ! a")
    case (HArr xs)
    with assms(3) HRef a show ?thesis by (simp add: cell_def)
  next
    case (HObj kvs)
    show ?thesis
    proof (cases "map_of kvs name")
      case None
      with assms(3) HRef a HObj show ?thesis by (simp add: cell_def)
    next
      case (Some u)
      then have "u \<in> set (vals_of (H ! a))"
        using HObj by (auto dest: map_of_SomeD simp: image_iff intro: bexI [where x = "(name, u)"])
      with assms(1) a have "valid H u" by (rule closed_nth)
      with assms(3) HRef a HObj Some show ?thesis by (simp add: cell_def)
    qed
  qed
qed (use assms(3) in auto)

lemma get_first_sim:
  assumes "renamed b d H H'" and "valid H v"
  shows "h_get_first H' (lift b d v) = map_sum id (lift b d) (h_get_first H v)"
proof (cases v)
  case (HRef a)
  with assms have a: "a < length H" by simp
  from renamed_cell [OF assms(1) a] show ?thesis
    by (cases "H ! a") (simp_all add: HRef map_of_lift split: option.splits list.splits)
next
  case (HStr s)
  then show ?thesis by (cases s) simp_all
qed simp_all

lemma get_first_valid:
  assumes "closed H" and "valid H v" and "h_get_first H v = Inr w"
  shows "valid H w"
proof (cases v)
  case (HRef a)
  with assms have a: "a < length H" by simp
  show ?thesis
  proof (cases "H ! a")
    case (HArr xs)
    show ?thesis
    proof (cases xs)
      case Nil
      with assms(3) HRef a HArr show ?thesis by (simp add: cell_def)
    next
      case (Cons x rest)
      then have "x \<in> set (vals_of (H ! a))" using HArr by simp
      with assms(1) a have "valid H x" by (rule closed_nth)
      with assms(3) HRef a HArr Cons show ?thesis by (simp add: cell_def)
    qed
  next
    case (HObj kvs)
    show ?thesis
    proof (cases "map_of kvs ''0''")
      case None
      with assms(3) HRef a HObj show ?thesis by (simp add: cell_def)
    next
      case (Some u)
      then have "u \<in> set (vals_of (H ! a))"
        using HObj by (auto dest: map_of_SomeD simp: image_iff intro: bexI [where x = "(''0'', u)"])
      with assms(1) a have "valid H u" by (rule closed_nth)
      with assms(3) HRef a HObj Some show ?thesis by (simp add: cell_def)
    qed
  qed
next
  case (HStr s)
  with assms(3) show ?thesis by (cases s) auto
qed (use assms(3) in auto)

lemma elems_sim:
  assumes "renamed b d H H'" and "valid H v"
  shows "elems H' (lift b d v) = map_option (map (lift b d)) (elems H v)"
proof (cases v)
  case (HRef a)
  with assms have a: "a < length H" by simp
  from renamed_cell [OF assms(1) a] show ?thesis
    by (cases "H ! a") (simp_all add: HRef elems_def)
qed (simp_all add: elems_def)

lemma elems_valid:
  assumes "closed H" and "elems H v = Some xs" and "x \<in> set xs"
  shows "valid H x"
proof -
  from assms(2) obtain a where v: "v = HRef a" and a: "a < length H" and "H ! a = HArr xs"
    by (auto simp: elems_def cell_def split: hval.splits hobj.splits if_splits)
  with assms(3) have "x \<in> set (vals_of (H ! a))" by simp
  with assms(1) a show ?thesis by (rule closed_nth)
qed

lemma correlates_sim:
  assumes R: "renamed b d H H'" and C: "closed H" and blind: "address_blind heq"
    and key: "valid H key" and el: "valid H element"
  shows "h_correlates heq H' (lift b d key) (lift b d element) = h_correlates heq H key element"
proof -
  have eq: "heq H' (lift b d code) (lift b d key) = heq H code key" if "valid H code" for code
    using blind R C key that by (auto simp: address_blind_def)
  have tail: "and_then (map_sum id (lift b d) (h_get_prop H node ''stateFipsCode''))
                (\<lambda>code. if \<not> h_truthy code then Inl (Error msg) else heq H' code (lift b d key))
            = and_then (h_get_prop H node ''stateFipsCode'')
                (\<lambda>code. if \<not> h_truthy code then Inl (Error msg) else heq H code key)"
    if "valid H node" for node msg
  proof (cases "h_get_prop H node ''stateFipsCode''")
    case (Inl e)
    then show ?thesis by (simp add: and_then_def)
  next
    case (Inr code)
    with C that have "valid H code" by (rule get_prop_valid)
    with Inr show ?thesis by (simp add: and_then_def lift_truthy eq)
  qed
  show ?thesis
  proof (cases "h_get_prop H element ''edges''")
    case (Inl e)
    then show ?thesis
      by (simp add: h_correlates_def get_prop_sim [OF R el] and_then_def)
  next
    case edges: (Inr edges)
    with C el have ve: "valid H edges" by (rule get_prop_valid)
    show ?thesis
    proof (cases "h_truthy edges")
      case True
      show ?thesis
      proof (cases "h_get_first H edges")
        case (Inl e)
        with edges True show ?thesis
          by (simp add: h_correlates_def get_prop_sim [OF R el] get_first_sim [OF R ve]
              and_then_def lift_truthy)
      next
        case edge: (Inr edge)
        with C ve have vedge: "valid H edge" by (rule get_first_valid)
        show ?thesis
        proof (cases "h_get_prop H edge ''node''")
          case (Inl e)
          with edges True edge show ?thesis
            by (simp add: h_correlates_def get_prop_sim [OF R el] get_first_sim [OF R ve]
                get_prop_sim [OF R vedge] and_then_def lift_truthy)
        next
          case node: (Inr node)
          with C vedge have vnode: "valid H node" by (rule get_prop_valid)
          from edges True edge node tail [OF vnode] show ?thesis
            by (simp add: h_correlates_def get_prop_sim [OF R el] get_first_sim [OF R ve]
                get_prop_sim [OF R vedge] get_prop_sim [OF R vnode] and_then_Inr lift_truthy)
        qed
      qed
    next
      case False
      show ?thesis
      proof (cases "h_get_prop H element ''nodes''")
        case (Inl e)
        with edges False show ?thesis
          by (simp add: h_correlates_def get_prop_sim [OF R el] and_then_def lift_truthy)
      next
        case nodes: (Inr nodes)
        with C el have vn: "valid H nodes" by (rule get_prop_valid)
        show ?thesis
        proof (cases "h_truthy nodes")
          case nt: True
          show ?thesis
          proof (cases "h_get_first H nodes")
            case (Inl e)
            with edges False nodes nt show ?thesis
              by (simp add: h_correlates_def get_prop_sim [OF R el] get_first_sim [OF R vn]
                  and_then_def lift_truthy)
          next
            case node: (Inr node)
            with C vn have vnode: "valid H node" by (rule get_first_valid)
            from edges False nodes nt node tail [OF vnode] show ?thesis
              by (simp add: h_correlates_def get_prop_sim [OF R el] get_first_sim [OF R vn]
                  get_prop_sim [OF R vnode] and_then_Inr lift_truthy)
          qed
        next
          case nf: False
          with edges False nodes show ?thesis
            by (simp add: h_correlates_def get_prop_sim [OF R el] and_then_def lift_truthy)
        qed
      qed
    qed
  qed
qed

lemma valid_append: "valid H v \<Longrightarrow> valid (H @ X) v"
  by (cases v) simp_all

lemma closed_append1:
  assumes "closed H" and "\<forall>v\<in>set (vals_of obj). valid (H @ [obj]) v"
  shows "closed (H @ [obj])"
  using assms by (auto simp: closed_def intro: valid_append)

lemma renamed_append1:
  assumes "renamed b d H H'"
  shows "renamed b d (H @ [obj]) (H' @ [lift_obj b d obj])"
proof -
  from assms have b: "b \<le> length H" and len: "length H' = length H + d"
    and at: "\<forall>a<length H. H' ! shift b d a = lift_obj b d (H ! a)"
    by (simp_all add: renamed_def)
  have "(H' @ [lift_obj b d obj]) ! shift b d a = lift_obj b d ((H @ [obj]) ! a)"
    if "a < length (H @ [obj])" for a
  proof (cases "a < length H")
    case True
    then have "shift b d a < length H'" using len by (simp add: shift_def)
    with True at show ?thesis by (simp add: nth_append)
  next
    case False
    with that have "a = length H" by simp
    with b len show ?thesis by (simp add: shift_def nth_append)
  qed
  with b len show ?thesis by (simp add: renamed_def)
qed

lemma lift_fresh: "renamed b d H H' \<Longrightarrow> lift b d (HRef (length H)) = HRef (length H')"
  by (simp add: renamed_def shift_def)

lemma find_sim:
  "\<forall>x\<in>set xs. p' (lift b d x) = p x \<Longrightarrow>
   h_find p' (map (lift b d) xs) = map_sum id (lift b d) (h_find p xs)"
  by (induction xs) (auto split: sum.splits bool.splits)

lemma find_valid:
  "h_find p xs = Inr v \<Longrightarrow> \<forall>x\<in>set xs. valid H x \<Longrightarrow> valid H v"
  by (induction xs) (auto split: sum.splits bool.splits if_splits)

lemma find_in_sim:
  assumes R: "renamed b d H H'" and C: "closed H" and blind: "address_blind heq"
    and key: "valid H key" and res: "valid H results"
  shows "h_find_in H' (lift b d results) (h_correlates heq H' (lift b d key))
         = map_sum id (lift b d) (h_find_in H results (h_correlates heq H key))"
proof (cases "elems H results")
  case None
  then show ?thesis by (simp add: h_find_in_def elems_sim [OF R res])
next
  case (Some xs)
  have "\<forall>x\<in>set xs. h_correlates heq H' (lift b d key) (lift b d x) = h_correlates heq H key x"
    using correlates_sim [OF R C blind key] elems_valid [OF C Some] by blast
  then show ?thesis
    by (simp add: h_find_in_def elems_sim [OF R res] Some find_sim)
qed

lemma find_in_valid:
  assumes "closed H" and "h_find_in H results p = Inr v"
  shows "valid H v"
proof -
  from assms(2) obtain xs where xs: "elems H results = Some xs" and f: "h_find p xs = Inr v"
    by (auto simp: h_find_in_def split: option.splits)
  from f show ?thesis using elems_valid [OF assms(1) xs] by (intro find_valid) blast+
qed

lemma js_map_sim:
  "\<forall>k\<in>set ks. f' (lift b d k) = map_sum id (lift b d) (f k) \<Longrightarrow>
   js_map f' (map (lift b d) ks) = map_sum id (map (lift b d)) (js_map f ks)"
  by (induction ks) (auto split: sum.splits)

lemma js_map_valid:
  "js_map f ks = Inr vs \<Longrightarrow> \<forall>k\<in>set ks. \<forall>v. f k = Inr v \<longrightarrow> P v \<Longrightarrow> \<forall>v\<in>set vs. P v"
  by (induction ks arbitrary: vs) (auto split: sum.splits)

lemma alloc_sim:
  assumes R: "renamed b d H H'" and C: "closed H" and vs: "\<forall>v\<in>set (vals_of obj). valid H v"
  shows "sim b d H H' (case alloc H obj of (r, h1) \<Rightarrow> (Inr r, h1))
           (case alloc H' (lift_obj b d obj) of (r, h1) \<Rightarrow> (Inr r, h1))"
proof -
  have "closed (H @ [obj])"
    using C vs by (intro closed_append1) (auto intro: valid_append)
  then show ?thesis
    using renamed_append1 [OF R, of obj] lift_fresh [OF R]
    by (simp add: sim_def alloc_def)
qed

lemma valuesFromResults_sim:
  assumes R: "renamed b d H H'" and C: "closed H" and blind: "address_blind heq"
    and keys: "\<forall>k\<in>set keys. valid H k" and res: "valid H results"
  shows "sim b d H H' (h_valuesFromResults heq H results keys)
           (h_valuesFromResults heq H' (lift b d results) (map (lift b d) keys))"
proof -
  let ?f = "\<lambda>key. h_find_in H results (h_correlates heq H key)"
  let ?f' = "\<lambda>key. h_find_in H' (lift b d results) (h_correlates heq H' key)"
  have step: "?f' (lift b d k) = map_sum id (lift b d) (?f k)" if "k \<in> set keys" for k
  proof -
    from that keys have "valid H k" by blast
    then show ?thesis by (rule find_in_sim [OF R C blind _ res])
  qed
  have m: "js_map ?f' (map (lift b d) keys) = map_sum id (map (lift b d)) (js_map ?f keys)"
    by (rule js_map_sim) (simp add: step)
  show ?thesis
  proof (cases "js_map ?f keys")
    case (Inl e)
    with m R C show ?thesis by (simp add: h_valuesFromResults_def sim_def)
  next
    case (Inr vs)
    have "\<forall>k\<in>set keys. \<forall>v. ?f k = Inr v \<longrightarrow> valid H v"
      using find_in_valid [OF C] by blast
    with Inr have "\<forall>v\<in>set vs. valid H v" by (rule js_map_valid)
    then have "\<forall>v\<in>set (vals_of (HArr vs)). valid H v" by simp
    from alloc_sim [OF R C this] Inr m show ?thesis
      by (simp add: h_valuesFromResults_def)
  qed
qed

lemma sim_same:
  "renamed b d H H' \<Longrightarrow> closed H \<Longrightarrow> (\<forall>v. r = Inr v \<longrightarrow> valid H v) \<Longrightarrow>
   sim b d H H' (r, H) (map_sum id (lift b d) r, H')"
  by (simp add: sim_def)

lemma sim_from:
  "sim b d H1 H1' out out' \<Longrightarrow> prefix H H1 \<Longrightarrow> prefix H' H1' \<Longrightarrow> sim b d H H' out out'"
  by (auto simp: sim_def)

lemma wrap_all_sim:
  assumes "renamed b d H H'" and "closed H" and "\<forall>x\<in>set xs. valid H x"
  shows "sim_list b d H H' (h_wrap_all name H xs) (h_wrap_all name H' (map (lift b d) xs))"
  using assms
proof (induction xs arbitrary: H H')
  case Nil
  then show ?case by (simp add: sim_list_def)
next
  case (Cons a rest)
  let ?arr = "HArr [a]" and ?obj = "HObj [(name, HRef (length H))]"
  let ?H1 = "H @ [?arr]" and ?H1' = "H' @ [lift_obj b d ?arr]"
  let ?H2 = "?H1 @ [?obj]" and ?H2' = "?H1' @ [lift_obj b d ?obj]"
  from Cons.prems have a: "valid H a" and rest: "\<forall>x\<in>set rest. valid H x" by simp_all
  have R1: "renamed b d ?H1 ?H1'" using Cons.prems(1) by (rule renamed_append1)
  then have R2: "renamed b d ?H2 ?H2'" by (rule renamed_append1)
  have C1: "closed ?H1"
  proof (rule closed_append1)
    show "closed H" by (rule Cons.prems(2))
    show "\<forall>v\<in>set (vals_of ?arr). valid ?H1 v" using a by (simp add: valid_append)
  qed
  have C2: "closed ?H2"
  proof (rule closed_append1)
    show "closed ?H1" by (rule C1)
    show "\<forall>v\<in>set (vals_of ?obj). valid ?H2 v" by simp
  qed
  have v2: "\<forall>x\<in>set rest. valid ?H2 x"
    using rest valid_append [of H _ "[?arr, ?obj]"] by simp
  from Cons.IH [OF R2 C2 v2]
  have IH: "sim_list b d ?H2 ?H2' (h_wrap_all name ?H2 rest)
              (h_wrap_all name ?H2' (map (lift b d) rest))" .
  have fresh: "lift b d (HRef (length H)) = HRef (length H')"
    using Cons.prems(1) by (rule lift_fresh)
  have fresh1: "lift b d (HRef (Suc (length H))) = HRef (Suc (length H'))"
    using lift_fresh [OF R1] by simp
  have w: "valid (snd (h_wrap_all name ?H2 rest)) (HRef (Suc (length H)))"
  proof -
    have "valid ?H2 (HRef (Suc (length H)))" by simp
    moreover have "prefix ?H2 (snd (h_wrap_all name ?H2 rest))"
      using IH by (simp add: sim_list_def)
    ultimately show ?thesis by (rule valid_prefix [rotated])
  qed
  have p: "prefix H ?H2" "prefix H' ?H2'" by simp_all
  obtain ws Hn where run: "h_wrap_all name ?H2 rest = (ws, Hn)" by (cases "h_wrap_all name ?H2 rest")
  obtain ws' Hn' where run': "h_wrap_all name ?H2' (map (lift b d) rest) = (ws', Hn')"
    by (cases "h_wrap_all name ?H2' (map (lift b d) rest)")
  from IH run run' have parts: "ws' = map (lift b d) ws" "renamed b d Hn Hn'" "closed Hn"
    "prefix ?H2 Hn" "prefix ?H2' Hn'" "\<forall>v\<in>set ws. valid Hn v"
    by (simp_all add: sim_list_def)
  from parts(4) p(1) have pH: "prefix H Hn" by (rule prefix_order.trans [rotated])
  from parts(5) p(2) have pH': "prefix H' Hn'" by (rule prefix_order.trans [rotated])
  from w run have w': "valid Hn (HRef (Suc (length H)))" by simp
  show ?case
    using parts pH pH' w' run run' fresh fresh1
    by (simp add: sim_list_def alloc_def)
qed

lemma alloc_list_sim:
  assumes S: "sim_list b d H H' (ws, Hn) (ws', Hn')"
  shows "sim b d H H' (case alloc Hn (HArr ws) of (r, h1) \<Rightarrow> (Inr r, h1))
           (case alloc Hn' (HArr ws') of (r, h1) \<Rightarrow> (Inr r, h1))"
proof -
  from S have parts: "ws' = map (lift b d) ws" "renamed b d Hn Hn'" "closed Hn"
    "prefix H Hn" "prefix H' Hn'" "\<forall>v\<in>set ws. valid Hn v"
    by (simp_all add: sim_list_def)
  from parts(6) have "\<forall>v\<in>set (vals_of (HArr ws)). valid Hn v" by simp
  from alloc_sim [OF parts(2,3) this]
  have "sim b d Hn Hn' (case alloc Hn (HArr ws) of (r, h1) \<Rightarrow> (Inr r, h1))
           (case alloc Hn' (HArr ws') of (r, h1) \<Rightarrow> (Inr r, h1))"
    by (simp add: parts(1))
  then show ?thesis using parts(4,5) by (rule sim_from)
qed

lemma wrap_each_sim:
  assumes R: "renamed b d H H'" and C: "closed H" and res: "valid H result"
  shows "sim b d H H' (h_wrap_each name H result) (h_wrap_each name H' (lift b d result))"
proof (cases "h_nullish result")
  case True
  with sim_same [OF R C, of "Inr HUndefined"] show ?thesis
    by (simp add: h_wrap_each_def lift_nullish)
next
  case nn: False
  show ?thesis
  proof (cases "h_get_prop H result name")
    case (Inl e)
    with nn sim_same [OF R C, of "Inl e"] show ?thesis
      by (simp add: h_wrap_each_def lift_nullish get_prop_sim [OF R res])
  next
    case (Inr field)
    with C res have vf: "valid H field" by (rule get_prop_valid)
    show ?thesis
    proof (cases "h_nullish field")
      case True
      with nn Inr sim_same [OF R C, of "Inr HUndefined"] show ?thesis
        by (simp add: h_wrap_each_def lift_nullish get_prop_sim [OF R res])
    next
      case fn: False
      show ?thesis
      proof (cases "elems H field")
        case None
        with nn Inr fn sim_same [OF R C, of "Inl TypeError"] show ?thesis
          by (simp add: h_wrap_each_def lift_nullish get_prop_sim [OF R res] elems_sim [OF R vf])
      next
        case (Some xs)
        have vx: "\<forall>x\<in>set xs. valid H x" using elems_valid [OF C Some] by blast
        obtain ws Hn where run: "h_wrap_all name H xs = (ws, Hn)"
          by (cases "h_wrap_all name H xs")
        obtain ws' Hn' where run': "h_wrap_all name H' (map (lift b d) xs) = (ws', Hn')"
          by (cases "h_wrap_all name H' (map (lift b d) xs)")
        from wrap_all_sim [OF R C vx, of name] run run'
        have "sim_list b d H H' (ws, Hn) (ws', Hn')" by simp
        from alloc_list_sim [OF this] nn Inr fn Some run run' show ?thesis
          by (simp add: h_wrap_each_def lift_nullish get_prop_sim [OF R res] elems_sim [OF R vf])
      qed
    qed
  qed
qed

lemma put_prop_map:
  "put_prop k (f v) (map (\<lambda>(k, v). (k, f v)) kvs) = map (\<lambda>(k, v). (k, f v)) (put_prop k v kvs)"
  by (induction kvs) auto

lemma foldl_put_prop_map:
  "foldl (\<lambda>acc (k, v). put_prop k v acc) (map (\<lambda>(k, v). (k, f v)) kvs) (map (\<lambda>(k, v). (k, f v)) sfs)
   = map (\<lambda>(k, v). (k, f v)) (foldl (\<lambda>acc (k, v). put_prop k v acc) kvs sfs)"
  by (induction sfs arbitrary: kvs) (auto simp: put_prop_map)

lemma put_prop_all:
  "P v \<Longrightarrow> \<forall>x\<in>set kvs. P (snd x) \<Longrightarrow> \<forall>x\<in>set (put_prop k v kvs). P (snd x)"
  by (induction kvs) (fastforce split: if_splits)+

lemma foldl_put_prop_all:
  "\<forall>x\<in>set kvs. P (snd x) \<Longrightarrow> \<forall>x\<in>set sfs. P (snd x) \<Longrightarrow>
   \<forall>x\<in>set (foldl (\<lambda>acc (k, v). put_prop k v acc) kvs sfs). P (snd x)"
proof (induction sfs arbitrary: kvs)
  case Nil
  then show ?case by simp
next
  case (Cons kv sfs)
  obtain k v where kv: "kv = (k, v)" by (cases kv)
  with Cons.prems have "P v" by simp
  then have "\<forall>x\<in>set (put_prop k v kvs). P (snd x)"
    using Cons.prems(1) by (rule put_prop_all)
  moreover from Cons.prems(2) have "\<forall>x\<in>set sfs. P (snd x)" by simp
  ultimately have "\<forall>x\<in>set (foldl (\<lambda>acc (k, v). put_prop k v acc) (put_prop k v kvs) sfs). P (snd x)"
    by (rule Cons.IH)
  then show ?case by (simp add: kv)
qed

lemma spread_into_sim:
  assumes R: "renamed b d H H'" and src: "valid H src"
  shows "h_spread_into H' (map (\<lambda>(k, v). (k, lift b d v)) kvs) (lift b d src)
         = map (\<lambda>(k, v). (k, lift b d v)) (h_spread_into H kvs src)"
proof (cases src)
  case (HRef a)
  with src have a: "a < length H" by simp
  from renamed_cell [OF R a] show ?thesis
    by (cases "H ! a") (simp_all add: HRef h_spread_into_def foldl_put_prop_map)
qed (simp_all add: h_spread_into_def)

lemma spread_into_valid:
  assumes C: "closed H" and src: "valid H src" and kvs: "\<forall>x\<in>set kvs. valid H (snd x)"
  shows "\<forall>x\<in>set (h_spread_into H kvs src). valid H (snd x)"
proof (cases src)
  case (HRef a)
  with src have a: "a < length H" by simp
  show ?thesis
  proof (cases "H ! a")
    case (HArr xs)
    with a kvs show ?thesis by (simp add: HRef h_spread_into_def cell_def)
  next
    case (HObj sfs)
    have "\<forall>x\<in>set sfs. valid H (snd x)"
      using closed_nth [OF C a] HObj by simp
    with kvs have "\<forall>x\<in>set (foldl (\<lambda>acc (k, v). put_prop k v acc) kvs sfs). valid H (snd x)"
      by (rule foldl_put_prop_all)
    with a HObj show ?thesis
      by (simp add: HRef h_spread_into_def cell_def)
  qed
qed (use kvs in \<open>simp_all add: h_spread_into_def\<close>)

lemma at_index_sim:
  "renamed b d H H' \<Longrightarrow> valid H v \<Longrightarrow>
   h_at_index H' (lift b d v) i = lift b d (h_at_index H v i)"
  by (cases "elems H v") (simp_all add: h_at_index_def elems_sim)

lemma at_index_valid:
  assumes "closed H"
  shows "valid H (h_at_index H v i)"
proof (cases "elems H v")
  case None
  then show ?thesis by (simp add: h_at_index_def)
next
  case (Some xs)
  with elems_valid [OF assms Some] show ?thesis by (simp add: h_at_index_def)
qed

lemma combine_sim:
  assumes "renamed b d H H'" and "closed H"
    and "\<forall>n\<in>set ns. valid H n" and "valid H edges"
  shows "sim_elist b d H H' (h_combine H edges index ns)
           (h_combine H' (lift b d edges) index (map (lift b d) ns))"
  using assms
proof (induction ns arbitrary: H H' index)
  case Nil
  then show ?case by (simp add: sim_elist_def)
next
  case (Cons n rest)
  note R = Cons.prems(1) and C = Cons.prems(2)
  from Cons.prems have vn: "valid H n" and vrest: "\<forall>n\<in>set rest. valid H n"
    and ves: "valid H edges" by simp_all
  show ?case
  proof (cases "h_get_prop H n ''nodes''")
    case (Inl e)
    with R C show ?thesis
      by (simp add: sim_elist_def get_prop_sim [OF R vn])
  next
    case (Inr nn)
    with C vn have vnn: "valid H nn" by (rule get_prop_valid)
    let ?src = "h_at_index H edges index"
    let ?kvs = "h_spread_into H [(''nodes'', nn)] ?src"
    let ?obj = "HObj ?kvs"
    let ?H1 = "H @ [?obj]" and ?H1' = "H' @ [lift_obj b d ?obj]"
    have vsrc: "valid H ?src" using C by (rule at_index_valid)
    have obj': "HObj (h_spread_into H' [(''nodes'', lift b d nn)]
                  (h_at_index H' (lift b d edges) index)) = lift_obj b d ?obj"
      using spread_into_sim [OF R vsrc, of "[(''nodes'', nn)]"]
      by (simp add: at_index_sim [OF R ves])
    have vk: "\<forall>x\<in>set ?kvs. valid H (snd x)"
      using C vsrc by (rule spread_into_valid) (simp add: vnn)
    have R1: "renamed b d ?H1 ?H1'" using R by (rule renamed_append1)
    have C1: "closed ?H1"
    proof (rule closed_append1)
      show "closed H" by (rule C)
      show "\<forall>v\<in>set (vals_of ?obj). valid ?H1 v" using vk by (simp add: valid_append)
    qed
    have v1: "\<forall>n\<in>set rest. valid ?H1 n" "valid ?H1 edges"
      using vrest ves by (simp_all add: valid_append)
    from Cons.IH [OF R1 C1 v1, of "Suc index"]
    have IH: "sim_elist b d ?H1 ?H1' (h_combine ?H1 edges (Suc index) rest)
                (h_combine ?H1' (lift b d edges) (Suc index) (map (lift b d) rest))" .
    obtain r Hn where run: "h_combine ?H1 edges (Suc index) rest = (r, Hn)"
      by (cases "h_combine ?H1 edges (Suc index) rest")
    obtain r' Hn' where run': "h_combine ?H1' (lift b d edges) (Suc index) (map (lift b d) rest) = (r', Hn')"
      by (cases "h_combine ?H1' (lift b d edges) (Suc index) (map (lift b d) rest)")
    from IH run run' have parts: "r' = map_sum id (map (lift b d)) r" "renamed b d Hn Hn'"
      "closed Hn" "prefix ?H1 Hn" "prefix ?H1' Hn'"
      "\<forall>vs. r = Inr vs \<longrightarrow> (\<forall>v\<in>set vs. valid Hn v)"
      by (simp_all add: sim_elist_def)
    have pH: "prefix H Hn" using parts(4) by (auto dest: append_prefixD)
    have pH': "prefix H' Hn'" using parts(5) by (auto dest: append_prefixD)
    have fresh: "lift b d (HRef (length H)) = HRef (length H')" using R by (rule lift_fresh)
    have vg: "valid Hn (HRef (length H))"
      using parts(4) by (auto dest: prefix_length_le)
    show ?thesis
    proof (cases r)
      case (Inl e)
      with Inr run run' parts pH pH' obj' show ?thesis
        by (simp add: sim_elist_def get_prop_sim [OF R vn] alloc_def)
    next
      case gs: (Inr gs)
      with Inr run run' parts pH pH' obj' fresh vg show ?thesis
        by (simp add: sim_elist_def get_prop_sim [OF R vn] alloc_def)
    qed
  qed
qed

lemma resultTransformer_sim:
  assumes R: "renamed b d H H'" and C: "closed H" and res: "valid H result"
  shows "sim b d H H' (h_resultTransformer H result) (h_resultTransformer H' (lift b d result))"
proof -
  obtain r1 H1 where e: "h_wrap_each ''edges'' H result = (r1, H1)"
    by (cases "h_wrap_each ''edges'' H result")
  obtain r1' H1' where e': "h_wrap_each ''edges'' H' (lift b d result) = (r1', H1')"
    by (cases "h_wrap_each ''edges'' H' (lift b d result)")
  from wrap_each_sim [OF R C res, of "''edges''"] e e'
  have S1: "sim b d H H' (r1, H1) (r1', H1')" by simp
  then have p1: "r1' = map_sum id (lift b d) r1" "renamed b d H1 H1'" "closed H1"
    "prefix H H1" "prefix H' H1'" "\<forall>v. r1 = Inr v \<longrightarrow> valid H1 v"
    by (simp_all add: sim_def)
  show ?thesis
  proof (cases r1)
    case (Inl err)
    with S1 e e' p1(1) show ?thesis by (simp add: h_resultTransformer_def)
  next
    case edges: (Inr edges)
    with p1 have vedges: "valid H1 edges" by simp
    have res1: "valid H1 result" using p1(4) res by (rule valid_prefix)
    obtain r2 H2 where n: "h_wrap_each ''nodes'' H1 result = (r2, H2)"
      by (cases "h_wrap_each ''nodes'' H1 result")
    obtain r2' H2' where n': "h_wrap_each ''nodes'' H1' (lift b d result) = (r2', H2')"
      by (cases "h_wrap_each ''nodes'' H1' (lift b d result)")
    from wrap_each_sim [OF p1(2,3) res1, of "''nodes''"] n n'
    have S2: "sim b d H1 H1' (r2, H2) (r2', H2')" by simp
    then have S2H: "sim b d H H' (r2, H2) (r2', H2')" using p1(4,5) by (rule sim_from)
    from S2 have p2: "r2' = map_sum id (lift b d) r2" "renamed b d H2 H2'" "closed H2"
      "prefix H1 H2" "prefix H1' H2'" "\<forall>v. r2 = Inr v \<longrightarrow> valid H2 v"
      by (simp_all add: sim_def)
    from p1(4) p2(4) have pH2: "prefix H H2" by (rule prefix_order.trans)
    from p1(5) p2(5) have pH2': "prefix H' H2'" by (rule prefix_order.trans)
    show ?thesis
    proof (cases r2)
      case (Inl err)
      with S2H e e' n n' edges p1(1) p2(1) show ?thesis
        by (simp add: h_resultTransformer_def)
    next
      case nodes: (Inr nodes)
      with p2 have vnodes: "valid H2 nodes" by simp
      have vedges2: "valid H2 edges" using p2(4) vedges by (rule valid_prefix)
      have en: "elems H2' (lift b d nodes) = map_option (map (lift b d)) (elems H2 nodes)"
        using p2(2) vnodes by (rule elems_sim)
      have keep: "sim b d H H' (Inr (if h_truthy nodes then nodes else edges), H2)
                (Inr (lift b d (if h_truthy nodes then nodes else edges)), H2')"
        using p2(2,3) pH2 pH2' vnodes vedges2 by (simp add: sim_def)
      show ?thesis
      proof (cases "h_truthy nodes \<and> h_truthy edges")
        case False
        with keep e e' n n' edges nodes p1(1) p2(1) show ?thesis
          by (cases "h_truthy nodes") (auto simp: h_resultTransformer_def lift_truthy)
      next
        case both: True
        show ?thesis
        proof (cases "elems H2 nodes")
          case None
          have "sim b d H H' (Inl TypeError, H2) (Inl TypeError, H2')"
            using p2(2,3) pH2 pH2' by (simp add: sim_def)
          with None both e e' n n' edges nodes p1(1) p2(1) en show ?thesis
            by (simp add: h_resultTransformer_def lift_truthy)
        next
          case ns: (Some ns)
          have vns: "\<forall>x\<in>set ns. valid H2 x" using elems_valid [OF p2(3) ns] by blast
          obtain r3 H3 where c: "h_combine H2 edges 0 ns = (r3, H3)"
            by (cases "h_combine H2 edges 0 ns")
          obtain r3' H3' where c': "h_combine H2' (lift b d edges) 0 (map (lift b d) ns) = (r3', H3')"
            by (cases "h_combine H2' (lift b d edges) 0 (map (lift b d) ns)")
          from combine_sim [OF p2(2,3) vns vedges2, of 0] c c'
          have S3: "sim_elist b d H2 H2' (r3, H3) (r3', H3')" by simp
          then have p3: "r3' = map_sum id (map (lift b d)) r3" "renamed b d H3 H3'" "closed H3"
            "prefix H2 H3" "prefix H2' H3'" "\<forall>vs. r3 = Inr vs \<longrightarrow> (\<forall>v\<in>set vs. valid H3 v)"
            by (simp_all add: sim_elist_def)
          from pH2 p3(4) have pH3: "prefix H H3" by (rule prefix_order.trans)
          from pH2' p3(5) have pH3': "prefix H' H3'" by (rule prefix_order.trans)
          show ?thesis
          proof (cases r3)
            case (Inl err)
            have "sim b d H H' (Inl err, H3) (Inl err, H3')"
              using p3(2,3) pH3 pH3' by (simp add: sim_def)
            with Inl ns both e e' n n' edges nodes p1(1) p2(1) en c c' p3(1) show ?thesis
              by (simp add: h_resultTransformer_def lift_truthy)
          next
            case gs: (Inr gs)
            with p3 have "sim_list b d H H' (gs, H3) (map (lift b d) gs, H3')"
              using pH3 pH3' by (simp add: sim_list_def)
            from alloc_list_sim [OF this]
              gs ns both e e' n n' edges nodes p1(1) p2(1) en c c' p3(1) show ?thesis
              by (simp add: h_resultTransformer_def lift_truthy)
          qed
        qed
      qed
    qed
  qed
qed

lemma batch_values_sim:
  assumes R: "renamed b d H H'" and C: "closed H" and blind: "address_blind heq"
    and res: "valid H result" and keys: "\<forall>k\<in>set keys. valid H k"
  shows "sim b d H H' (h_batch_values heq H result keys)
           (h_batch_values heq H' (lift b d result) (map (lift b d) keys))"
proof -
  obtain r1 H1 where t: "h_resultTransformer H result = (r1, H1)"
    by (cases "h_resultTransformer H result")
  obtain r1' H1' where t': "h_resultTransformer H' (lift b d result) = (r1', H1')"
    by (cases "h_resultTransformer H' (lift b d result)")
  from resultTransformer_sim [OF R C res] t t'
  have S1: "sim b d H H' (r1, H1) (r1', H1')" by simp
  then have p1: "r1' = map_sum id (lift b d) r1" "renamed b d H1 H1'" "closed H1"
    "prefix H H1" "prefix H' H1'" "\<forall>v. r1 = Inr v \<longrightarrow> valid H1 v"
    by (simp_all add: sim_def)
  show ?thesis
  proof (cases r1)
    case (Inl err)
    with S1 t t' p1(1) show ?thesis by (simp add: h_batch_values_def)
  next
    case (Inr results)
    with p1 have vr: "valid H1 results" by simp
    have vk: "\<forall>k\<in>set keys. valid H1 k" using keys p1(4) by (auto intro: valid_prefix)
    have "sim b d H1 H1' (h_valuesFromResults heq H1 results keys)
            (h_valuesFromResults heq H1' (lift b d results) (map (lift b d) keys))"
      using p1(2,3) blind vk vr by (rule valuesFromResults_sim)
    then have "sim b d H H' (h_valuesFromResults heq H1 results keys)
            (h_valuesFromResults heq H1' (lift b d results) (map (lift b d) keys))"
      using p1(4,5) by (rule sim_from)
    with Inr t t' p1(1) show ?thesis by (simp add: h_batch_values_def)
  qed
qed

lemma shift_inj: "shift b d x = shift b d y \<Longrightarrow> x = y"
  by (auto simp: shift_def split: if_splits)

lemma lift_inj: "lift b d a = lift b d c \<longleftrightarrow> a = c"
  by (cases a; cases c) (auto dest: shift_inj)

lemma strict_address_blind: "address_blind h_strict"
  by (simp add: address_blind_def h_strict_def lift_inj)

lemma reify_sim:
  "renamed b d H H' \<Longrightarrow> closed H \<Longrightarrow> valid H v \<Longrightarrow> reify n H' (lift b d v) = reify n H v"
proof (induction n arbitrary: v)
  case 0
  then show ?case by (cases v) simp_all
next
  case (Suc n)
  show ?case
  proof (cases v)
    case (HRef a)
    with Suc.prems have a: "a < length H" by simp
    have inner: "reify n H' (lift b d u) = reify n H u" if "u \<in> set (vals_of (H ! a))" for u
      using Suc.IH [OF Suc.prems(1,2)] closed_nth [OF Suc.prems(2) a that] by blast
    from renamed_cell [OF Suc.prems(1) a] inner show ?thesis
      by (cases "H ! a") (force simp: HRef)+
  qed simp_all
qed

lemma renamed_refl: "renamed (length h) 0 h h"
proof -
  have "lift (length h) 0 v = v" for v by (cases v) (simp_all add: shift_def)
  then have "lift_obj (length h) 0 obj = obj" for obj
    by (cases obj) (simp_all add: map_idI case_prod_unfold)
  then show ?thesis by (simp add: renamed_def shift_def)
qed

lemma renamed_extension:
  assumes "closed h" and "prefix h h1"
  shows "renamed (length h) (length h1 - length h) h h1"
proof -
  let ?b = "length h" and ?d = "length h1 - length h"
  have same: "lift_obj ?b ?d (h ! a) = h ! a" if "a < length h" for a
  proof -
    have "lift ?b ?d v = v" if "v \<in> set (vals_of (h ! a))" for v
      using closed_nth [OF assms(1) \<open>a < length h\<close> that] by (rule lift_below) simp
    then show ?thesis
      by (cases "h ! a") (auto simp: map_idI case_prod_unfold intro!: map_idI)
  qed
  from assms(2) obtain X where X: "h1 = h @ X" by (auto simp: prefix_def)
  then have "h1 ! shift ?b ?d a = lift_obj ?b ?d (h ! a)" if "a < length h" for a
    using that same [OF that] by (simp add: shift_def nth_append)
  with X show ?thesis by (simp add: renamed_def)
qed

text \<open>
  C9. Run the mapping (\<open>resultTransformer\<close>, then \<open>valuesFromResults\<close>) on a response
  and a key sequence, and run it again on the same response and keys in the heap the
  first run left. Neither run changes an object that existed before it: each heap is
  the one before with new objects appended. And the runs agree: they throw the same
  error, or they return values that stand for the same JSON document at every depth.
\<close>

theorem batch_values_repeatable:
  assumes blind: "address_blind heq" and C: "closed h"
    and res: "valid h result" and keys: "\<forall>k\<in>set keys. valid h k"
    and run1: "h_batch_values heq h result keys = (r1, h1)"
    and run2: "h_batch_values heq h1 result keys = (r2, h2)"
  shows "prefix h h1 \<and> prefix h1 h2 \<and>
         (\<forall>e. r1 = Inl e \<longrightarrow> r2 = Inl e) \<and>
         (\<forall>v. r1 = Inr v \<longrightarrow> (\<exists>v'. r2 = Inr v' \<and> (\<forall>n. reify n h2 v' = reify n h1 v)))"
proof -
  let ?b = "length h" and ?d = "length h1 - length h"
  have "lift ?b 0 v = v" for v by (cases v) (simp_all add: shift_def)
  with batch_values_sim [OF renamed_refl C blind res keys] run1
  have "sim ?b 0 h h (r1, h1) (r1, h1)" by (simp add: map_idI)
  then have p1: "prefix h h1" and C1: "closed h1" and v1: "\<forall>v. r1 = Inr v \<longrightarrow> valid h1 v"
    by (simp_all add: sim_def)
  have R: "renamed ?b ?d h h1" using C p1 by (rule renamed_extension)
  have "lift ?b ?d result = result" using res by (rule lift_below) simp
  moreover have "map (lift ?b ?d) keys = keys"
    using keys by (intro map_idI lift_below) auto
  ultimately have "sim ?b ?d h h1 (r1, h1) (r2, h2)"
    using batch_values_sim [OF R C blind res keys] run1 run2 by simp
  then have r2: "r2 = map_sum id (lift ?b ?d) r1" and R2: "renamed ?b ?d h1 h2"
    and p2: "prefix h1 h2"
    by (simp_all add: sim_def)
  have "reify n h2 (lift ?b ?d v) = reify n h1 v" if "r1 = Inr v" for n v
    using R2 C1 v1 that by (intro reify_sim) auto
  with p1 p2 r2 show ?thesis by auto
qed

theorem batch_values_repeatable_witness:
  "address_blind h_strict \<and> closed one_state \<and> valid one_state (HRef 2) \<and>
   h_batch_values h_strict one_state (HRef 2) [HStr ''06'', HStr ''02'']
     = (Inr (HRef 6),
        one_state @ [HArr [HRef 0], HObj [(''nodes'', HRef 3)], HArr [HRef 4],
                     HArr [HRef 4, HUndefined]]) \<and>
   h_batch_values h_strict
       (one_state @ [HArr [HRef 0], HObj [(''nodes'', HRef 3)], HArr [HRef 4],
                     HArr [HRef 4, HUndefined]])
       (HRef 2) [HStr ''06'', HStr ''02'']
     = (Inr (HRef 10),
        one_state @ [HArr [HRef 0], HObj [(''nodes'', HRef 3)], HArr [HRef 4],
                     HArr [HRef 4, HUndefined],
                     HArr [HRef 0], HObj [(''nodes'', HRef 7)], HArr [HRef 8],
                     HArr [HRef 8, HUndefined]]) \<and>
   reify 4
       (one_state @ [HArr [HRef 0], HObj [(''nodes'', HRef 3)], HArr [HRef 4],
                     HArr [HRef 4, HUndefined],
                     HArr [HRef 0], HObj [(''nodes'', HRef 7)], HArr [HRef 8],
                     HArr [HRef 8, HUndefined]]) (HRef 10)
     = reify 4
       (one_state @ [HArr [HRef 0], HObj [(''nodes'', HRef 3)], HArr [HRef 4],
                     HArr [HRef 4, HUndefined]]) (HRef 6)"
proof -
  let ?keys = "[HStr ''06'', HStr ''02'']"
  let ?new = "[HArr [HRef 0], HObj [(''nodes'', HRef 3)], HArr [HRef 4], HArr [HRef 4, HUndefined]]"
  let ?new' = "[HArr [HRef 0], HObj [(''nodes'', HRef 7)], HArr [HRef 8], HArr [HRef 8, HUndefined]]"
  have c: "closed one_state" by (simp add: closed_def one_state_def)
  have v: "valid one_state (HRef 2)" by (simp add: one_state_def)
  have k: "\<forall>k\<in>set ?keys. valid one_state k" by simp
  have run1: "h_batch_values h_strict one_state (HRef 2) ?keys = (Inr (HRef 6), one_state @ ?new)"
    by code_simp
  have run2: "h_batch_values h_strict (one_state @ ?new) (HRef 2) ?keys
              = (Inr (HRef 10), one_state @ ?new @ ?new')"
    by code_simp
  from batch_values_repeatable [OF strict_address_blind c v k run1 run2]
  have "reify 4 (one_state @ ?new @ ?new') (HRef 10) = reify 4 (one_state @ ?new) (HRef 6)"
    by auto
  with strict_address_blind c v run1 run2 show ?thesis by simp
qed

end
